theory Spec2Isabelle
  imports
    Complex_Main
    "HOL-Library.AList"
    "HOL-Library.Multiset"
    "HOL-Library.Char_ord"
    "HOL-Library.List_Lexorder"
begin

section \<open>Values shared by the services\<close>

text \<open>
  Go's \<open>float64\<close>. A finite value carries its exact real value; negative zero,
  the two infinities and NaN are separate values, because comparison and \<open>%.2f\<close>
  formatting treat them differently.
\<close>

datatype float64 = Finite real | NegZero | PosInf | NegInf | NaN

text \<open>The operators \<open><\<close>, \<open>>\<close> and \<open>==\<close> of Go on \<open>float64\<close> (IEEE 754).\<close>

fun f64_lt :: "float64 \<Rightarrow> float64 \<Rightarrow> bool" where
  "f64_lt NaN _ = False"
| "f64_lt _ NaN = False"
| "f64_lt _ NegInf = False"
| "f64_lt NegInf _ = True"
| "f64_lt PosInf _ = False"
| "f64_lt _ PosInf = True"
| "f64_lt (Finite a) (Finite b) = (a < b)"
| "f64_lt (Finite a) NegZero = (a < 0)"
| "f64_lt NegZero (Finite b) = (0 < b)"
| "f64_lt NegZero NegZero = False"

definition f64_gt :: "float64 \<Rightarrow> float64 \<Rightarrow> bool" where
  "f64_gt a b = f64_lt b a"

fun f64_eq :: "float64 \<Rightarrow> float64 \<Rightarrow> bool" where
  "f64_eq NaN _ = False"
| "f64_eq _ NaN = False"
| "f64_eq (Finite a) (Finite b) = (a = b)"
| "f64_eq (Finite a) NegZero = (a = 0)"
| "f64_eq NegZero (Finite b) = (b = 0)"
| "f64_eq a b = (a = b)"

text \<open>
  \<open>time.Time\<close> as a count of nanoseconds and \<open>time.Duration\<close> as a signed
  number of nanoseconds. \<open>t.After(u)\<close> is strict.
\<close>

type_synonym Time = int
type_synonym Duration = int

definition After :: "Time \<Rightarrow> Time \<Rightarrow> bool" where
  "After t u = (u < t)"

definition Add :: "Time \<Rightarrow> Duration \<Rightarrow> Time" where
  "Add t d = t + d"

text \<open>\<open>types.HistoricalPricePoint\<close>.\<close>

record HistoricalPricePoint =
  Date :: string
  Open :: float64
  High :: float64
  Low :: float64
  Close :: float64

text \<open>
  Errors are values. Each constructor stands for one \<open>fmt.Errorf\<close> of the source;
  \<open>Upstream\<close> stands for the transport, status and parse errors of the
  Alpha Vantage calls, with their message.
\<close>

datatype error =
    PriceNotFound string
  | TickerNotFound string
  | FailedAnyTicker "error list"
  | Upstream string
  | TimeSeriesNotFound string
  | AlertNotFound string
  | WebhookMarshal
  | WebhookCreateRequest string
  | WebhookSend string
  | WebhookStatus int
  | InvalidPriceType
  | ScanError string

section \<open>The expiring cache of AlphaVantageService\<close>

record cacheEntry =
  price :: float64
  history :: "HistoricalPricePoint list"
  expiry :: Time

text \<open>
  A Go map is modelled as an association list with distinct keys. \<open>range\<close> visits
  the entries in list order; Go leaves that order unspecified, so the theorems
  hold for every list. \<open>m[k] = v\<close> is \<open>AList.update\<close>, \<open>delete(m, k)\<close> is
  \<open>AList.delete\<close>, \<open>len(m)\<close> is \<open>length\<close>.
\<close>

type_synonym cacheMap = "(string \<times> cacheEntry) list"

record AlphaVantageService =
  cache :: cacheMap
  cacheTTL :: Duration
  maxCacheSize :: int

definition defaultMaxCacheSize :: int where
  "defaultMaxCacheSize = 1000"

text \<open>\<open>getCachedPrice\<close> and \<open>getCachedHistory\<close>; \<open>now\<close> is the reading of \<open>time.Now()\<close>.\<close>

definition getCachedPrice :: "Time \<Rightarrow> string \<Rightarrow> AlphaVantageService \<Rightarrow> float64 \<times> bool" where
  "getCachedPrice now ticker s =
     (case map_of (cache s) ticker of
        None \<Rightarrow> (Finite 0, False)
      | Some entry \<Rightarrow>
          if After now (expiry entry) then (Finite 0, False)
          else (price entry, True))"

definition getCachedHistory ::
  "Time \<Rightarrow> string \<Rightarrow> AlphaVantageService \<Rightarrow> HistoricalPricePoint list \<times> bool" where
  "getCachedHistory now key s =
     (case map_of (cache s) key of
        None \<Rightarrow> ([], False)
      | Some entry \<Rightarrow>
          if After now (expiry entry) then ([], False)
          else (history entry, True))"

text \<open>\<open>evictExpired\<close>: one pass over the map, deleting while ranging.\<close>

definition evictExpired :: "Time \<Rightarrow> AlphaVantageService \<Rightarrow> AlphaVantageService" where
  "evictExpired now s =
     s\<lparr>cache :=
         fold (\<lambda>(ticker, entry) m. if After now (expiry entry) then AList.delete ticker m else m)
           (cache s) (cache s)\<rparr>"

text \<open>
  The sort of \<open>evictOldest\<close>, loop by loop:
  \<open>for i := 0; i < len(entries); i++ { for j := i + 1; j < len(entries); j++ { ... } }\<close>.
\<close>

type_synonym tickerExpiry = "string \<times> Time"

function sort_inner :: "nat \<Rightarrow> nat \<Rightarrow> tickerExpiry list \<Rightarrow> tickerExpiry list" where
  "sort_inner i j entries =
     (if j < length entries
      then sort_inner i (j + 1)
             (if After (snd (entries ! i)) (snd (entries ! j))
              then entries[i := entries ! j, j := entries ! i]
              else entries)
      else entries)"
  by pat_completeness auto
termination
  by (relation "measure (\<lambda>(i, j, entries). length entries - j)") auto

declare sort_inner.simps [simp del]

lemma length_sort_inner [simp]: "length (sort_inner i j entries) = length entries"
  by (induction i j entries rule: sort_inner.induct) (subst sort_inner.simps, simp)

function sort_outer :: "nat \<Rightarrow> tickerExpiry list \<Rightarrow> tickerExpiry list" where
  "sort_outer i entries =
     (if i < length entries
      then sort_outer (i + 1) (sort_inner i (i + 1) entries)
      else entries)"
  by pat_completeness auto
termination
  by (relation "measure (\<lambda>(i, entries). length entries - i)") auto

declare sort_outer.simps [simp del]

text \<open>\<open>evictOldest\<close>.\<close>

definition evictOldest :: "AlphaVantageService \<Rightarrow> AlphaVantageService" where
  "evictOldest s =
     (if length (cache s) = 0 then s
      else
        let entries = sort_outer 0 (map (\<lambda>(ticker, entry). (ticker, expiry entry)) (cache s));
            numToRemove = (if length entries div 10 < 1 then 1 else length entries div 10)
        in s\<lparr>cache := fold (\<lambda>i m. AList.delete (fst (entries ! i)) m) [0..<numToRemove] (cache s)\<rparr>)"

text \<open>
  \<open>setCachedPrice\<close> and \<open>setCachedHistory\<close>. \<open>t1\<close> is the clock reading inside
  \<open>evictExpired\<close>, \<open>t2\<close> the later reading that stamps the new entry.
\<close>

definition setCachedPrice ::
  "Time \<Rightarrow> Time \<Rightarrow> string \<Rightarrow> float64 \<Rightarrow> AlphaVantageService \<Rightarrow> AlphaVantageService" where
  "setCachedPrice t1 t2 ticker p s =
     (let s1 = evictExpired t1 s;
          s2 = (if int (length (cache s1)) \<ge> maxCacheSize s1 then evictOldest s1 else s1)
      in s2\<lparr>cache := AList.update ticker
                \<lparr>price = p, history = [], expiry = Add t2 (cacheTTL s2)\<rparr> (cache s2)\<rparr>)"

definition setCachedHistory ::
  "Time \<Rightarrow> Time \<Rightarrow> string \<Rightarrow> HistoricalPricePoint list \<Rightarrow> AlphaVantageService
     \<Rightarrow> AlphaVantageService" where
  "setCachedHistory t1 t2 key h s =
     (let s1 = evictExpired t1 s;
          s2 = (if int (length (cache s1)) \<ge> maxCacheSize s1 then evictOldest s1 else s1)
      in s2\<lparr>cache := AList.update key
                \<lparr>price = Finite 0, history = h, expiry = Add t2 (cacheTTL s2)\<rparr> (cache s2)\<rparr>)"

definition ClearCache :: "AlphaVantageService \<Rightarrow> AlphaVantageService" where
  "ClearCache s = s\<lparr>cache := []\<rparr>"

subsection \<open>Notions used to state the cache properties\<close>

text \<open>The first \<open>i\<close> positions hold the \<open>i\<close> soonest expiries, in ascending order.\<close>

definition sorted_upto :: "nat \<Rightarrow> tickerExpiry list \<Rightarrow> bool" where
  "sorted_upto i es \<longleftrightarrow> (\<forall>a b. a < b \<and> a < i \<and> b < length es \<longrightarrow> snd (es ! a) \<le> snd (es ! b))"

text \<open>The entries \<open>evictOldest\<close> selects: the first \<open>numToRemove\<close> of the sorted slice.\<close>

definition oldest_entries :: "cacheMap \<Rightarrow> tickerExpiry list" where
  "oldest_entries c =
     take (if length c div 10 < 1 then 1 else length c div 10)
       (sort_outer 0 (map (\<lambda>(ticker, entry). (ticker, expiry entry)) c))"

text \<open>The map at the moment \<open>setCachedPrice\<close> or \<open>setCachedHistory\<close> stores the new entry.\<close>

definition kept_for_store :: "Time \<Rightarrow> AlphaVantageService \<Rightarrow> cacheMap" where
  "kept_for_store t1 s =
     (let s1 = evictExpired t1 s
      in cache (if int (length (cache s1)) \<ge> maxCacheSize s1 then evictOldest s1 else s1))"

text \<open>
  Any number of insertions, starting from \<open>s0\<close>. Before each insertion the map may be
  enumerated in any order (\<open>mset c = mset (cache s)\<close>), as Go's \<open>range\<close> allows.
\<close>

inductive puts_to :: "AlphaVantageService \<Rightarrow> AlphaVantageService \<Rightarrow> bool" for s0 where
  puts_none: "puts_to s0 s0"
| puts_price:
    "puts_to s0 s \<Longrightarrow> mset c = mset (cache s) \<Longrightarrow>
     puts_to s0 (setCachedPrice t1 t2 key p (s\<lparr>cache := c\<rparr>))"
| puts_history:
    "puts_to s0 s \<Longrightarrow> mset c = mset (cache s) \<Longrightarrow>
     puts_to s0 (setCachedHistory t1 t2 key h (s\<lparr>cache := c\<rparr>))"

section \<open>The alert registry and evaluator\<close>

type_synonym AlertCondition = string

definition ConditionAbove :: AlertCondition where
  "ConditionAbove = ''above''"

definition ConditionBelow :: AlertCondition where
  "ConditionBelow = ''below''"

record Alert =
  ID :: string
  Ticker :: string
  Condition :: AlertCondition
  Threshold :: float64
  WebhookURL :: string
  Active :: bool
  CreatedAt :: Time
  TriggeredAt :: "Time option"

text \<open>
  \<open>alerts map[string]*Alert\<close>. Every stored pointer comes from one \<open>&Alert{...}\<close> in
  \<open>CreateAlert\<close>, so no two keys share a struct, and the map holds the structs
  themselves.
\<close>

record AlertService =
  alerts :: "(string \<times> Alert) list"

text \<open>
  The verb \<open>%.2f\<close> of \<open>fmt.Sprintf\<close> on a \<open>float64\<close>: the exact value rounded to two
  decimals, ties to even, with the sign of the value kept.
\<close>

definition digit_char :: "nat \<Rightarrow> char" where
  "digit_char d = ''0123456789'' ! d"

function nat_digits :: "nat \<Rightarrow> string" where
  "nat_digits n = (if n < 10 then [digit_char n] else nat_digits (n div 10) @ [digit_char (n mod 10)])"
  by pat_completeness auto
termination
  by (relation "measure id") auto

declare nat_digits.simps [simp del]

definition round_half_even :: "real \<Rightarrow> int" where
  "round_half_even x =
     (let f = \<lfloor>x\<rfloor>; d = x - of_int f
      in if d < 1 / 2 then f
         else if 1 / 2 < d then f + 1
         else if even f then f else f + 1)"

definition fmt_f2 :: "float64 \<Rightarrow> string" where
  "fmt_f2 x =
     (case x of
        NaN \<Rightarrow> ''NaN''
      | PosInf \<Rightarrow> ''+Inf''
      | NegInf \<Rightarrow> ''-Inf''
      | NegZero \<Rightarrow> ''-0.00''
      | Finite r \<Rightarrow>
          let n = nat (round_half_even (\<bar>r\<bar> * 100))
          in (if r < 0 then ''-'' else '''') @ nat_digits (n div 100) @ ''.''
               @ [digit_char (n mod 100 div 10), digit_char (n mod 10)])"

text \<open>\<open>CreateAlert\<close>; \<open>now\<close> is the reading of \<open>time.Now()\<close>. The error result is always nil.\<close>

definition CreateAlert ::
  "Time \<Rightarrow> string \<Rightarrow> AlertCondition \<Rightarrow> float64 \<Rightarrow> string \<Rightarrow> AlertService
     \<Rightarrow> Alert \<times> AlertService" where
  "CreateAlert now ticker condition threshold webhookURL s =
     (let alertID = ticker @ ''-'' @ condition @ ''-'' @ fmt_f2 threshold;
          alert = \<lparr>ID = alertID, Ticker = ticker, Condition = condition,
                   Threshold = threshold, WebhookURL = webhookURL, Active = True,
                   CreatedAt = now, TriggeredAt = None\<rparr>
      in (alert, s\<lparr>alerts := AList.update alertID alert (alerts s)\<rparr>))"

definition GetAlert :: "string \<Rightarrow> AlertService \<Rightarrow> error + Alert" where
  "GetAlert alertID s =
     (case map_of (alerts s) alertID of
        None \<Rightarrow> Inl (AlertNotFound alertID)
      | Some alert \<Rightarrow> Inr alert)"

definition ListAlerts :: "AlertService \<Rightarrow> Alert list" where
  "ListAlerts s = map snd (alerts s)"

definition DeleteAlert :: "string \<Rightarrow> AlertService \<Rightarrow> error option \<times> AlertService" where
  "DeleteAlert alertID s =
     (case map_of (alerts s) alertID of
        None \<Rightarrow> (Some (AlertNotFound alertID), s)
      | Some _ \<Rightarrow> (None, s\<lparr>alerts := AList.delete alertID (alerts s)\<rparr>))"


subsection \<open>The evaluator and its collaborators\<close>

text \<open>The JSON body of the webhook; \<open>wh_triggered_at\<close> is rendered as RFC 3339 in the source.\<close>

record webhookPayload =
  wh_alert_id :: string
  wh_ticker :: string
  wh_condition :: AlertCondition
  wh_threshold :: float64
  wh_current_price :: float64
  wh_triggered_at :: Time

text \<open>
  What \<open>http.NewRequest\<close> followed by \<open>httpClient.Do\<close> can give: no request could be
  built, the transport failed, or a response with a status code arrived.
\<close>

datatype httpResult = BadRequest string | TransportError string | Status int

text \<open>
  Everything outside the alert service: the price service behind the
  \<open>PriceService\<close> interface, the HTTP endpoint of the webhooks and the clock. The
  \<open>n\<close>-th call of each kind gets the \<open>n\<close>-th reply, and the replies are arbitrary.
\<close>

record world =
  priceReplies :: "nat \<Rightarrow> string \<Rightarrow> error + float64"
  httpReplies :: "nat \<Rightarrow> string \<Rightarrow> webhookPayload \<Rightarrow> httpResult"
  clockReadings :: "nat \<Rightarrow> Time"
  fetchCount :: nat
  postCount :: nat
  clockCount :: nat

definition priceSvc_FetchPrice :: "string \<Rightarrow> world \<Rightarrow> (error + float64) \<times> world" where
  "priceSvc_FetchPrice t w = (priceReplies w (fetchCount w) t, w\<lparr>fetchCount := Suc (fetchCount w)\<rparr>)"

definition httpClient_Do :: "string \<Rightarrow> webhookPayload \<Rightarrow> world \<Rightarrow> httpResult \<times> world" where
  "httpClient_Do url body w = (httpReplies w (postCount w) url body, w\<lparr>postCount := Suc (postCount w)\<rparr>)"

definition time_Now :: "world \<Rightarrow> Time \<times> world" where
  "time_Now w = (clockReadings w (clockCount w), w\<lparr>clockCount := Suc (clockCount w)\<rparr>)"

text \<open>\<open>json.Marshal\<close> rejects a \<open>float64\<close> that is NaN or infinite.\<close>

fun json_number_ok :: "float64 \<Rightarrow> bool" where
  "json_number_ok (Finite _) = True"
| "json_number_ok NegZero = True"
| "json_number_ok _ = False"

text \<open>\<open>sendWebhook\<close>; \<open>None\<close> is the nil error.\<close>

definition sendWebhook :: "Alert \<Rightarrow> float64 \<Rightarrow> world \<Rightarrow> error option \<times> world" where
  "sendWebhook alert p w =
     (if WebhookURL alert = [] then (None, w)
      else
        let (now, w1) = time_Now w;
            payload = \<lparr>wh_alert_id = ID alert, wh_ticker = Ticker alert,
                       wh_condition = Condition alert, wh_threshold = Threshold alert,
                       wh_current_price = p, wh_triggered_at = now\<rparr>
        in if \<not> (json_number_ok (Threshold alert) \<and> json_number_ok p)
           then (Some WebhookMarshal, w1)
           else
             case httpClient_Do (WebhookURL alert) payload w1 of
               (BadRequest msg, w2) \<Rightarrow> (Some (WebhookCreateRequest msg), w2)
             | (TransportError msg, w2) \<Rightarrow> (Some (WebhookSend msg), w2)
             | (Status code, w2) \<Rightarrow>
                 if code < 200 \<or> code \<ge> 300 then (Some (WebhookStatus code), w2)
                 else (None, w2))"

text \<open>The \<open>switch alert.Condition\<close> of \<open>CheckAlerts\<close>.\<close>

definition triggered :: "AlertCondition \<Rightarrow> float64 \<Rightarrow> float64 \<Rightarrow> bool" where
  "triggered condition p threshold =
     (if condition = ConditionAbove then f64_gt p threshold
      else if condition = ConditionBelow then f64_lt p threshold
      else False)"

text \<open>What one visit of the loop does that can be observed from outside.\<close>

datatype event =
    FetchPriceCalled
  | FetchFailedLogged error
  | TriggerLogged float64
  | WebhookInvoked float64
  | WebhookFailedLogged error

text \<open>The body of the loop of \<open>CheckAlerts\<close> for one alert.\<close>

definition checkAlert :: "Alert \<Rightarrow> world \<Rightarrow> Alert \<times> world \<times> event list" where
  "checkAlert alert w =
     (if \<not> Active alert then (alert, w, [])
      else
        case priceSvc_FetchPrice (Ticker alert) w of
          (Inl err, w1) \<Rightarrow> (alert, w1, [FetchPriceCalled, FetchFailedLogged err])
        | (Inr p, w1) \<Rightarrow>
            if triggered (Condition alert) p (Threshold alert)
            then
              let (werr, w2) = sendWebhook alert p w1;
                  (now, w3) = time_Now w2
              in (alert\<lparr>TriggeredAt := Some now, Active := False\<rparr>, w3,
                  [FetchPriceCalled, TriggerLogged p, WebhookInvoked p]
                    @ (case werr of None \<Rightarrow> [] | Some e \<Rightarrow> [WebhookFailedLogged e]))
            else (alert, w1, [FetchPriceCalled]))"

text \<open>
  \<open>for _, alert := range s.alerts\<close>: the map itself is not changed while ranging, so
  every key is visited once. The events of a visit are tagged with the key.
\<close>

fun CheckAlerts_loop ::
  "(string \<times> Alert) list \<Rightarrow> world \<Rightarrow> (string \<times> Alert) list \<times> world \<times> (string \<times> event) list" where
  "CheckAlerts_loop [] w = ([], w, [])"
| "CheckAlerts_loop ((k, alert) # rest) w =
     (let (alert', w1, evs) = checkAlert alert w;
          (rest', w2, evs') = CheckAlerts_loop rest w1
      in ((k, alert') # rest', w2, map (Pair k) evs @ evs'))"

text \<open>\<open>CheckAlerts\<close>; its error result is always nil.\<close>

definition CheckAlerts ::
  "AlertService \<Rightarrow> world \<Rightarrow> AlertService \<times> world \<times> (string \<times> event) list" where
  "CheckAlerts s w =
     (let (al, w', tr) = CheckAlerts_loop (alerts s) w in (s\<lparr>alerts := al\<rparr>, w', tr))"

text \<open>
  Any number of evaluation passes starting from \<open>s0\<close>, each in its own world and over
  its own enumeration of the map, with the events of all passes.
\<close>

inductive passes :: "AlertService \<Rightarrow> AlertService \<Rightarrow> (string \<times> event) list \<Rightarrow> bool" for s0 where
  passes_none: "passes s0 s0 []"
| passes_step:
    "passes s0 s tr \<Longrightarrow> mset c = mset (alerts s) \<Longrightarrow>
     CheckAlerts (s\<lparr>alerts := c\<rparr>) w = (s', w', tr') \<Longrightarrow>
     passes s0 s' (tr @ tr')"

subsection \<open>Notions used to state the alert properties\<close>

text \<open>The event that stands for a call of \<open>sendWebhook\<close>.\<close>

fun is_webhook :: "event \<Rightarrow> bool" where
  "is_webhook (WebhookInvoked _) = True"
| "is_webhook _ = False"

text \<open>The events of the alert stored under \<open>k\<close>, and how many of them call the notifier.\<close>

definition events_of :: "string \<Rightarrow> (string \<times> event) list \<Rightarrow> event list" where
  "events_of k tr = map snd (filter (\<lambda>(k', _). k' = k) tr)"

definition webhook_calls :: "string \<Rightarrow> (string \<times> event) list \<Rightarrow> nat" where
  "webhook_calls k tr = length (filter is_webhook (events_of k tr))"


section \<open>The batch fetch\<close>

text \<open>\<open>priceMocks\<close>, \<open>MockPriceFetcher\<close> and \<open>MockBatchPriceFetcher\<close> of \<open>service.go\<close>.\<close>

definition priceMocks :: "(string \<times> float64) list" where
  "priceMocks = [(''AAPL'', Finite 150), (''MSFT'', Finite 300), (''GOOGL'', Finite 2800)]"

definition MockPriceFetcher :: "string \<Rightarrow> error + float64" where
  "MockPriceFetcher t =
     (case map_of priceMocks t of
        None \<Rightarrow> Inl (PriceNotFound t)
      | Some p \<Rightarrow> Inr p)"

text \<open>
  The loop of \<open>MockBatchPriceFetcher\<close>: the state is the map \<open>results\<close> and the slice
  \<open>errors\<close>; an error is appended and the loop continues.
\<close>

definition MockBatchPriceFetcher_loop ::
  "string list \<Rightarrow> (string \<times> float64) list \<times> error list" where
  "MockBatchPriceFetcher_loop tickers =
     fold (\<lambda>t (results, errors).
             case MockPriceFetcher t of
               Inl err \<Rightarrow> (results, errors @ [err])
             | Inr p \<Rightarrow> (AList.update t p results, errors))
       tickers ([], [])"

text \<open>The pair \<open>(nil, err)\<close> is \<open>Inl err\<close>, the pair \<open>(results, nil)\<close> is \<open>Inr results\<close>.\<close>

definition MockBatchPriceFetcher :: "string list \<Rightarrow> error + (string \<times> float64) list" where
  "MockBatchPriceFetcher tickers =
     (let (results, errors) = MockBatchPriceFetcher_loop tickers
      in if length results = 0 \<and> length errors > 0 then Inl (FailedAnyTicker errors)
         else Inr results)"

text \<open>
  \<open>AlphaVantageService.FetchPrices\<close> starts one goroutine per position of \<open>tickers\<close>.
  \<open>outcome i\<close> is what \<open>s.FetchPrice(ctx, t)\<close> returns in goroutine \<open>i\<close>, and \<open>order\<close> is
  the order in which the goroutines record their outcome under the two mutexes: a
  permutation of the positions. After \<open>wg.Wait()\<close> every goroutine has recorded.
\<close>

definition FetchPrices_collect ::
  "(nat \<Rightarrow> error + float64) \<Rightarrow> nat list \<Rightarrow> string list
     \<Rightarrow> (string \<times> float64) list \<times> error list" where
  "FetchPrices_collect outcome order tickers =
     fold (\<lambda>i (results, errors).
             case outcome i of
               Inl err \<Rightarrow> (results, errors @ [err])
             | Inr p \<Rightarrow> (AList.update (tickers ! i) p results, errors))
       order ([], [])"

definition FetchPrices ::
  "(nat \<Rightarrow> error + float64) \<Rightarrow> nat list \<Rightarrow> string list \<Rightarrow> error + (string \<times> float64) list" where
  "FetchPrices outcome order tickers =
     (let (results, errors) = FetchPrices_collect outcome order tickers
      in if length results = 0 \<and> length errors > 0 then Inl (FailedAnyTicker errors)
         else Inr results)"

section \<open>The price history\<close>

text \<open>A decoded JSON value, as \<open>json.Unmarshal\<close> puts it into an \<open>interface{}\<close>.\<close>

datatype json =
    JString string
  | JNumber float64
  | JObject "(string \<times> json) list"
  | JOther

text \<open>
  \<open>parsePrice\<close>. \<open>scan\<close> stands for \<open>fmt.Sscanf(v, "%f", &price)\<close>: the number read, or
  \<open>None\<close> when the scan fails and \<open>price\<close> keeps its zero value. The argument is
  \<open>None\<close> when the key is missing from the data point.
\<close>

definition parsePrice :: "(string \<Rightarrow> float64 option) \<Rightarrow> json option \<Rightarrow> float64 \<times> error option" where
  "parsePrice scan v =
     (case v of
        Some (JString str) \<Rightarrow>
          (case scan str of None \<Rightarrow> (Finite 0, Some (ScanError str)) | Some p \<Rightarrow> (p, None))
      | Some (JNumber x) \<Rightarrow> (x, None)
      | _ \<Rightarrow> (Finite 0, Some InvalidPriceType))"

text \<open>
  The loop over \<open>timeSeries\<close>. The list is the map in the order \<open>range\<close> yields its
  entries, which Go does not specify.
\<close>

fun parse_points ::
  "(string \<Rightarrow> float64 option) \<Rightarrow> string \<Rightarrow> string \<Rightarrow> (string \<times> json) list
     \<Rightarrow> HistoricalPricePoint list" where
  "parse_points scan fromDate toDate [] = []"
| "parse_points scan fromDate toDate ((date, data) # rest) =
     (case data of
        JObject dataPoint \<Rightarrow>
          if fromDate \<noteq> [] \<and> date < fromDate then parse_points scan fromDate toDate rest
          else if toDate \<noteq> [] \<and> date > toDate then parse_points scan fromDate toDate rest
          else \<lparr>Date = date,
                Open = fst (parsePrice scan (map_of dataPoint ''1. open'')),
                High = fst (parsePrice scan (map_of dataPoint ''2. high'')),
                Low = fst (parsePrice scan (map_of dataPoint ''3. low'')),
                Close = fst (parsePrice scan (map_of dataPoint ''4. close''))\<rparr>
               # parse_points scan fromDate toDate rest
      | _ \<Rightarrow> parse_points scan fromDate toDate rest)"

text \<open>
  \<open>for i, j := 0, len(historicalData)-1; i < j; i, j = i+1, j-1 { swap }\<close>, the step the
  source calls "Sort by date (descending order in API, reverse to ascending)".
\<close>

function reverse_loop :: "int \<Rightarrow> int \<Rightarrow> 'a list \<Rightarrow> 'a list" where
  "reverse_loop i j xs =
     (if i < j
      then reverse_loop (i + 1) (j - 1) (xs[nat i := xs ! nat j, nat j := xs ! nat i])
      else xs)"
  by pat_completeness auto
termination
  by (relation "measure (\<lambda>(i, j, xs). nat (j - i))") auto

declare reverse_loop.simps [simp del]

text \<open>
  \<open>FetchPriceHistory\<close>. \<open>upstream\<close> is the outcome of the request, the status check,
  the read of the body, \<open>json.Unmarshal\<close> and the lookup of \<open>Time Series (Daily)\<close>:
  an error, or the entries of the time series as \<open>range\<close> yields them. \<open>t0\<close> is the
  clock reading of the cache lookup, \<open>t1\<close> and \<open>t2\<close> those of the cache store.
\<close>

definition FetchPriceHistory ::
  "(string \<Rightarrow> float64 option) \<Rightarrow> (error + (string \<times> json) list) \<Rightarrow> Time \<Rightarrow> Time \<Rightarrow> Time
     \<Rightarrow> string \<Rightarrow> string \<Rightarrow> string \<Rightarrow> AlphaVantageService
     \<Rightarrow> (error + HistoricalPricePoint list) \<times> AlphaVantageService" where
  "FetchPriceHistory scan upstream t0 t1 t2 t fromDate toDate s =
     (let cacheKey = ''history_'' @ t @ ''_'' @ fromDate @ ''_'' @ toDate in
      case getCachedHistory t0 cacheKey s of
        (cached, True) \<Rightarrow> (Inr cached, s)
      | (_, False) \<Rightarrow>
          (case upstream of
             Inl err \<Rightarrow> (Inl err, s)
           | Inr timeSeries \<Rightarrow>
               let historicalData = parse_points scan fromDate toDate timeSeries;
                   historicalData = reverse_loop 0 (int (length historicalData) - 1) historicalData
               in (Inr historicalData, setCachedHistory t1 t2 cacheKey historicalData s)))"

section \<open>Properties of the expiring cache\<close>

lemma sort_inner_mset: "i < length entries \<Longrightarrow> mset (sort_inner i j entries) = mset entries"
proof (induction i j entries rule: sort_inner.induct)
  case (1 i j entries)
  show ?case
  proof (cases "j < length entries")
    case True
    then show ?thesis using 1 by (subst sort_inner.simps) (simp add: mset_swap)
  next
    case False then show ?thesis by (subst sort_inner.simps) simp
  qed
qed

lemma sort_inner_prefix: "i < j \<Longrightarrow> k < i \<Longrightarrow> sort_inner i j entries ! k = entries ! k"
proof (induction i j entries rule: sort_inner.induct)
  case (1 i j entries)
  show ?case
  proof (cases "j < length entries")
    case True
    then show ?thesis using 1 by (subst sort_inner.simps) simp
  next
    case False then show ?thesis by (subst sort_inner.simps) simp
  qed
qed

lemma sort_inner_min:
  "i < j \<Longrightarrow> \<forall>k. i < k \<and> k < j \<and> k < length entries \<longrightarrow> snd (entries ! i) \<le> snd (entries ! k) \<Longrightarrow>
   i < k \<Longrightarrow> k < length entries \<Longrightarrow> snd (sort_inner i j entries ! i) \<le> snd (sort_inner i j entries ! k)"
proof (induction i j entries rule: sort_inner.induct)
  case (1 i j entries)
  show ?case
  proof (cases "j < length entries")
    case True
    let ?es = "(if After (snd (entries ! i)) (snd (entries ! j))
              then entries[i := entries ! j, j := entries ! i]
              else entries)"
    have inv: "\<forall>k. i < k \<and> k < j + 1 \<and> k < length ?es \<longrightarrow> snd (?es ! i) \<le> snd (?es ! k)"
      using 1(2,3) True by (auto simp: After_def nth_list_update less_Suc_eq)
    have "snd (sort_inner i (j + 1) ?es ! i) \<le> snd (sort_inner i (j + 1) ?es ! k)"
      apply (rule 1(1)[OF True _ inv]) using 1 True by auto
    then show ?thesis using True by (subst (1 2) sort_inner.simps) simp
  next
    case False then show ?thesis using 1 by (subst (1 2) sort_inner.simps) simp
  qed
qed

lemma in_set_drop_nth: "x \<in> set (drop n xs) \<longleftrightarrow> (\<exists>k. n \<le> k \<and> k < length xs \<and> xs ! k = x)"
proof
  assume "x \<in> set (drop n xs)"
  then obtain i where "i < length xs - n" "xs ! (n + i) = x"
    by (auto simp: in_set_conv_nth)
  then show "\<exists>k. n \<le> k \<and> k < length xs \<and> xs ! k = x"
    by (intro exI[of _ "n + i"]) auto
next
  assume "\<exists>k. n \<le> k \<and> k < length xs \<and> xs ! k = x"
  then obtain k where k: "n \<le> k" "k < length xs" "xs ! k = x" by blast
  then have "k - n < length (drop n xs)" "drop n xs ! (k - n) = x" by auto
  then show "x \<in> set (drop n xs)" by (metis nth_mem)
qed

lemma sort_inner_take: "i < j \<Longrightarrow> take i (sort_inner i j es) = take i es"
  by (rule nth_equalityI) (auto simp: sort_inner_prefix)

lemma sort_inner_drop_mset:
  assumes "i < j" "i < length es"
  shows "mset (drop i (sort_inner i j es)) = mset (drop i es)"
proof -
  have "mset (take i (sort_inner i j es)) + mset (drop i (sort_inner i j es)) = mset (take i es) + mset (drop i es)"
    unfolding union_code append_take_drop_id using assms by (simp add: sort_inner_mset)
  then show ?thesis using assms by (simp add: sort_inner_take)
qed

lemma sort_inner_sorted_upto:
  assumes "sorted_upto i es" "i < length es"
  shows "sorted_upto (i + 1) (sort_inner i (i + 1) es)"
  unfolding sorted_upto_def
proof (intro allI impI)
  fix a b
  let ?r = "sort_inner i (i + 1) es"
  assume h: "a < b \<and> a < i + 1 \<and> b < length ?r"
  show "snd (?r ! a) \<le> snd (?r ! b)"
  proof (cases "a = i")
    case True
    then show ?thesis using h assms sort_inner_min[of i "i+1" es b] by simp
  next
    case False
    then have ai: "a < i" using h by simp
    then have ra: "?r ! a = es ! a" by (simp add: sort_inner_prefix)
    show ?thesis
    proof (cases "b < i")
      case True
      then have "?r ! b = es ! b" by (simp add: sort_inner_prefix)
      then show ?thesis using ra assms(1) h ai by (simp add: sorted_upto_def)
    next
      case False
      then have "?r ! b \<in> set (drop i ?r)" using h False unfolding in_set_drop_nth by (intro exI[of _ b]) simp
      then have "?r ! b \<in> set (drop i es)"
        using sort_inner_drop_mset[of i "i+1" es] assms(2) by (metis less_add_one set_mset_mset)
      then obtain b' where "b' \<ge> i" "b' < length es" "es ! b' = ?r ! b"
        by (auto simp: in_set_drop_nth)
      then show ?thesis using ra assms(1) ai unfolding sorted_upto_def
        by (metis le_eq_less_or_eq less_le_trans)
    qed
  qed
qed

lemma sort_outer_mset: "mset (sort_outer i es) = mset es"
proof (induction i es rule: sort_outer.induct)
  case (1 i es)
  show ?case
  proof (cases "i < length es")
    case True
    then show ?thesis using 1 by (subst sort_outer.simps) (simp add: sort_inner_mset)
  next
    case False then show ?thesis by (subst sort_outer.simps) simp
  qed
qed

lemma sort_outer_sorted_upto:
  "sorted_upto i es \<Longrightarrow> sorted_upto (length es) (sort_outer i es)"
proof (induction i es rule: sort_outer.induct)
  case (1 i es)
  show ?case
  proof (cases "i < length es")
    case True
    have "sorted_upto (length (sort_inner i (i + 1) es)) (sort_outer (i + 1) (sort_inner i (i + 1) es))"
      by (rule 1(1)[OF True sort_inner_sorted_upto[OF 1(2) True]])
    then show ?thesis using True by (subst sort_outer.simps) simp
  next
    case False then show ?thesis using 1(2) by (subst sort_outer.simps) (auto simp: sorted_upto_def)
  qed
qed

lemma length_sort_outer: "length (sort_outer i es) = length es"
  by (metis sort_outer_mset size_mset)

lemma sort_outer_sorted: "sorted_wrt (\<lambda>x y. snd x \<le> snd y) (sort_outer 0 es)"
proof -
  have "sorted_upto (length es) (sort_outer 0 es)"
    by (rule sort_outer_sorted_upto) (simp add: sorted_upto_def)
  then show ?thesis
    by (simp add: sorted_wrt_iff_nth_less sorted_upto_def length_sort_outer)
qed

lemma fold_delete_if:
  "fold (\<lambda>(k, e) m. if P e then AList.delete k m else m) xs m
     = filter (\<lambda>(k, _). \<not> (\<exists>e. (k, e) \<in> set xs \<and> P e)) m"
proof (induction xs arbitrary: m)
  case Nil
  then show ?case by simp
next
  case (Cons x xs)
  obtain k e where x: "x = (k, e)" by (cases x)
  show ?case
  proof (cases "P e")
    case True
    have "fold (\<lambda>(k, e) m. if P e then AList.delete k m else m) (x # xs) m
            = filter (\<lambda>(k, _). \<not> (\<exists>e. (k, e) \<in> set xs \<and> P e)) (filter (\<lambda>(k', _). k \<noteq> k') m)"
      using True by (simp add: x Cons.IH AList.delete_eq)
    also have "\<dots> = filter (\<lambda>(k, _). \<not> (\<exists>e. (k, e) \<in> set (x # xs) \<and> P e)) m"
      unfolding filter_filter using True by (intro filter_cong refl) (auto simp: x)
    finally show ?thesis .
  next
    case False
    have "fold (\<lambda>(k, e) m. if P e then AList.delete k m else m) (x # xs) m
            = filter (\<lambda>(k, _). \<not> (\<exists>e. (k, e) \<in> set xs \<and> P e)) m"
      using False by (simp add: x Cons.IH)
    also have "\<dots> = filter (\<lambda>(k, _). \<not> (\<exists>e. (k, e) \<in> set (x # xs) \<and> P e)) m"
      using False by (intro filter_cong refl) (auto simp: x)
    finally show ?thesis .
  qed
qed

lemma evictExpired_filter:
  assumes "distinct (map fst (cache s))"
  shows "cache (evictExpired now s) = filter (\<lambda>(k, e). now \<le> expiry e) (cache s)"
proof -
  have "(\<not> (\<exists>e'. (k, e') \<in> set (cache s) \<and> After now (expiry e'))) \<longleftrightarrow> now \<le> expiry e"
    if "(k, e) \<in> set (cache s)" for k e
  proof
    assume "\<not> (\<exists>e'. (k, e') \<in> set (cache s) \<and> After now (expiry e'))"
    then have "\<not> After now (expiry e)" using that by blast
    then show "now \<le> expiry e" by (simp add: After_def)
  next
    assume le: "now \<le> expiry e"
    show "\<not> (\<exists>e'. (k, e') \<in> set (cache s) \<and> After now (expiry e'))"
    proof
      assume "\<exists>e'. (k, e') \<in> set (cache s) \<and> After now (expiry e')"
      then obtain e' where e': "(k, e') \<in> set (cache s)" "After now (expiry e')" by blast
      have "e' = e" using assms e'(1) that by (rule eq_key_imp_eq_value)
      then show False using e'(2) le by (simp add: After_def)
    qed
  qed
  then have "\<And>x. x \<in> set (cache s) \<Longrightarrow>
      (case x of (k, _) \<Rightarrow> \<not> (\<exists>e. (k, e) \<in> set (cache s) \<and> After now (expiry e)))
        = (case x of (k, e) \<Rightarrow> now \<le> expiry e)"
    by (case_tac x) (simp only: prod.case)
  then have "filter (\<lambda>(k, _). \<not> (\<exists>e. (k, e) \<in> set (cache s) \<and> After now (expiry e))) (cache s)
               = filter (\<lambda>(k, e). now \<le> expiry e) (cache s)"
    by (intro filter_cong refl)
  then show ?thesis
    unfolding evictExpired_def by (simp add: fold_delete_if)
qed

lemma fold_delete_take:
  "n \<le> length es \<Longrightarrow>
   fold (\<lambda>i m. AList.delete (fst (es ! i)) m) [0..<n] m
     = filter (\<lambda>(k, _). k \<notin> fst ` set (take n es)) m"
proof (induction n)
  case 0
  then show ?case by simp
next
  case (Suc n)
  then have "fold (\<lambda>i m. AList.delete (fst (es ! i)) m) [0..<Suc n] m
     = filter (\<lambda>(k', _). fst (es ! n) \<noteq> k') (filter (\<lambda>(k, _). k \<notin> fst ` set (take n es)) m)"
    by (simp add: AList.delete_eq)
  also have "\<dots> = filter (\<lambda>(k, _). k \<notin> fst ` set (take (Suc n) es)) m"
    unfolding filter_filter using Suc.prems
    by (intro filter_cong refl) (auto simp: take_Suc_conv_app_nth)
  finally show ?case .
qed

lemma evictOldest_cache:
  "cache (evictOldest s) = filter (\<lambda>(k, _). k \<notin> fst ` set (oldest_entries (cache s))) (cache s)"
proof (cases "cache s = []")
  case True
  then show ?thesis by (simp add: evictOldest_def)
next
  case False
  then have "1 \<le> length (cache s)" by (cases "cache s") auto
  let ?es = "sort_outer 0 (map (\<lambda>(ticker, entry). (ticker, expiry entry)) (cache s))"
  let ?n = "if length ?es div 10 < 1 then 1 else length ?es div 10"
  have len: "length ?es = length (cache s)" by (simp add: length_sort_outer)
  have "?n \<le> length ?es" using \<open>1 \<le> length (cache s)\<close> unfolding len by auto
  then have "fold (\<lambda>i m. AList.delete (fst (?es ! i)) m) [0..<?n] (cache s)
               = filter (\<lambda>(k, _). k \<notin> fst ` set (take ?n ?es)) (cache s)"
    by (rule fold_delete_take)
  moreover have "cache (evictOldest s) = fold (\<lambda>i m. AList.delete (fst (?es ! i)) m) [0..<?n] (cache s)"
    using False by (simp add: evictOldest_def Let_def)
  ultimately show ?thesis
    unfolding oldest_entries_def len by simp
qed

lemma sorted_entries_keys:
  "mset (map fst (sort_outer 0 (map (\<lambda>(ticker, entry). (ticker, expiry entry)) c))) = mset (map fst c)"
proof -
  have A: "map fst (map (\<lambda>(ticker, entry). (ticker, expiry entry)) c) = map fst c"
    by (induction c) auto
  have "image_mset fst (mset (sort_outer 0 (map (\<lambda>(ticker, entry). (ticker, expiry entry)) c)))
          = image_mset fst (mset (map (\<lambda>(ticker, entry). (ticker, expiry entry)) c))"
    by (simp only: sort_outer_mset)
  then have "mset (map fst (sort_outer 0 (map (\<lambda>(ticker, entry). (ticker, expiry entry)) c)))
          = mset (map fst (map (\<lambda>(ticker, entry). (ticker, expiry entry)) c))"
    by (simp only: mset_map)
  then show ?thesis unfolding A .
qed

lemma oldest_entries_keys:
  assumes "distinct (map fst c)" "c \<noteq> []"
  shows "distinct (map fst (oldest_entries c))"
    and "length (oldest_entries c) = (if length c div 10 < 1 then 1 else length c div 10)"
    and "fst ` set (oldest_entries c) \<subseteq> fst ` set c"
proof -
  let ?es = "sort_outer 0 (map (\<lambda>(ticker, entry). (ticker, expiry entry)) c)"
  have d: "distinct (map fst ?es)"
    using mset_eq_imp_distinct_iff[OF sorted_entries_keys[of c]] assms(1) by simp
  show "distinct (map fst (oldest_entries c))"
    unfolding oldest_entries_def take_map[symmetric] using d by (rule distinct_take)
  have "1 \<le> length c" using assms(2) by (cases c) auto
  then show "length (oldest_entries c) = (if length c div 10 < 1 then 1 else length c div 10)"
    by (auto simp: oldest_entries_def length_sort_outer)
  have "set (map fst ?es) = set (map fst c)"
    using arg_cong[OF sorted_entries_keys[of c], of set_mset] by (simp only: set_mset_mset)
  then show "fst ` set (oldest_entries c) \<subseteq> fst ` set c"
    unfolding oldest_entries_def using set_take_subset[of _ ?es] by (simp only: set_map) blast
qed

lemma length_filter_keys:
  assumes "distinct (map fst c)" "K \<subseteq> fst ` set c"
  shows "length (filter (\<lambda>(k, _). k \<notin> K) c) = length c - card K"
proof -
  have "length (filter (\<lambda>(k, _). k \<notin> K) c) = length (filter (\<lambda>k. k \<notin> K) (map fst c))"
    by (induction c) auto
  also have "\<dots> = card (set (filter (\<lambda>k. k \<notin> K) (map fst c)))"
    using distinct_filter[OF assms(1)] by (rule distinct_card[symmetric])
  also have "set (filter (\<lambda>k. k \<notin> K) (map fst c)) = set (map fst c) - K" by auto
  also have "card (set (map fst c) - K) = card (set (map fst c)) - card K"
    using assms(2) by (intro card_Diff_subset) (auto intro: finite_subset)
  also have "card (set (map fst c)) = length (map fst c)"
    using assms(1) by (rule distinct_card)
  finally show ?thesis by simp
qed

lemma evictOldest_length:
  assumes "distinct (map fst (cache s))" "cache s \<noteq> []"
  shows "length (cache (evictOldest s))
           = length (cache s) - (if length (cache s) div 10 < 1 then 1 else length (cache s) div 10)"
proof -
  have "card (fst ` set (oldest_entries (cache s))) = length (oldest_entries (cache s))"
    using distinct_card[OF oldest_entries_keys(1)[OF assms]] by simp
  then show ?thesis
    using oldest_entries_keys(2,3)[OF assms] assms(1)
    by (simp add: evictOldest_cache length_filter_keys)
qed

lemma evictOldest_soonest:
  assumes d: "distinct (map fst (cache s))"
    and x: "x \<in> set (cache s)" "x \<notin> set (cache (evictOldest s))"
    and y: "y \<in> set (cache (evictOldest s))"
  shows "expiry (snd x) \<le> expiry (snd y)"
proof -
  let ?f = "\<lambda>(ticker, entry). (ticker, expiry entry)"
  let ?es = "sort_outer 0 (map ?f (cache s))"
  let ?n = "if length (cache s) div 10 < 1 then 1 else length (cache s) div 10"
  have set_es: "set ?es = ?f ` set (cache s)"
    using arg_cong[OF sort_outer_mset[of 0 "map ?f (cache s)"], of set_mset]
    by (simp only: set_mset_mset set_map)
  have key: "t = expiry (snd z)" if "(fst z, t) \<in> set ?es" "z \<in> set (cache s)" for z t
  proof -
    from that(1) set_es obtain k e where ke: "(k, e) \<in> set (cache s)" "(fst z, t) = (k, expiry e)"
      by auto
    then have a: "(fst z, e) \<in> set (cache s)" by simp
    have b: "(fst z, snd z) \<in> set (cache s)" using that(2) by simp
    have "e = snd z" by (rule eq_key_imp_eq_value[OF d a b])
    then show ?thesis using ke by simp
  qed
  have "\<not> (case x of (k, _) \<Rightarrow> k \<notin> fst ` set (oldest_entries (cache s)))"
    using x by (simp add: evictOldest_cache)
  then have "fst x \<in> fst ` set (oldest_entries (cache s))"
    by (simp add: case_prod_unfold)
  then obtain t where "(fst x, t) \<in> set (take ?n ?es)"
    by (auto simp: oldest_entries_def)
  note t = this
  then have "(fst x, t) \<in> set ?es" by (rule in_set_takeD)
  then have "t = expiry (snd x)" using x(1) by (rule key)
  then have xin: "(fst x, expiry (snd x)) \<in> set (take ?n ?es)"
    using t by (simp only:)
  from y have yf: "y \<in> set (filter (\<lambda>(k, _). k \<notin> fst ` set (oldest_entries (cache s))) (cache s))"
    by (simp only: evictOldest_cache)
  then have ycache: "y \<in> set (cache s)" by simp
  from yf have ykey: "fst y \<notin> fst ` set (take ?n ?es)"
    by (simp add: case_prod_unfold oldest_entries_def)
  have "?f y \<in> ?f ` set (cache s)" using ycache by (rule imageI)
  then have "(fst y, expiry (snd y)) \<in> set ?es"
    unfolding set_es by (simp add: case_prod_unfold)
  moreover have "set ?es = set (take ?n ?es) \<union> set (drop ?n ?es)"
    by (simp only: set_append[symmetric] append_take_drop_id)
  ultimately have "(fst y, expiry (snd y)) \<in> set (take ?n ?es) \<union> set (drop ?n ?es)"
    by (simp only:)
  moreover have "(fst y, expiry (snd y)) \<notin> set (take ?n ?es)"
  proof
    assume "(fst y, expiry (snd y)) \<in> set (take ?n ?es)"
    then have "fst (fst y, expiry (snd y)) \<in> fst ` set (take ?n ?es)" by (rule imageI)
    then show False using ykey by simp
  qed
  ultimately have yin: "(fst y, expiry (snd y)) \<in> set (drop ?n ?es)"
    by blast
  have "sorted_wrt (\<lambda>a b. snd a \<le> snd b) (take ?n ?es @ drop ?n ?es)"
    using sort_outer_sorted[of "map ?f (cache s)"] by (simp only: append_take_drop_id)
  then have "snd (fst x, expiry (snd x)) \<le> snd (fst y, expiry (snd y))"
    unfolding sorted_wrt_append using xin yin by blast
  then show ?thesis by simp
qed

lemma evictExpired_fields [simp]:
  "maxCacheSize (evictExpired now s) = maxCacheSize s" "cacheTTL (evictExpired now s) = cacheTTL s"
  by (simp_all add: evictExpired_def)

lemma evictOldest_fields [simp]:
  "maxCacheSize (evictOldest s) = maxCacheSize s" "cacheTTL (evictOldest s) = cacheTTL s"
  by (simp_all add: evictOldest_def Let_def)

lemma setCachedPrice_cache:
  "cache (setCachedPrice t1 t2 key p s)
     = AList.update key \<lparr>price = p, history = [], expiry = t2 + cacheTTL s\<rparr> (kept_for_store t1 s)"
  by (simp add: setCachedPrice_def kept_for_store_def Let_def Add_def)

lemma setCachedHistory_cache:
  "cache (setCachedHistory t1 t2 key h s)
     = AList.update key \<lparr>price = Finite 0, history = h, expiry = t2 + cacheTTL s\<rparr> (kept_for_store t1 s)"
  by (simp add: setCachedHistory_def kept_for_store_def Let_def Add_def)

lemma setCached_fields [simp]:
  "maxCacheSize (setCachedPrice t1 t2 key p s) = maxCacheSize s"
  "cacheTTL (setCachedPrice t1 t2 key p s) = cacheTTL s"
  "maxCacheSize (setCachedHistory t1 t2 key h s) = maxCacheSize s"
  "cacheTTL (setCachedHistory t1 t2 key h s) = cacheTTL s"
  by (simp_all add: setCachedPrice_def setCachedHistory_def Let_def)

lemma evictExpired_distinct:
  "distinct (map fst (cache s)) \<Longrightarrow> distinct (map fst (cache (evictExpired now s)))"
  by (simp add: evictExpired_filter distinct_map_filter)

lemma evictOldest_distinct:
  "distinct (map fst (cache s)) \<Longrightarrow> distinct (map fst (cache (evictOldest s)))"
  by (simp add: evictOldest_cache distinct_map_filter)

lemma kept_for_store_distinct:
  "distinct (map fst (cache s)) \<Longrightarrow> distinct (map fst (kept_for_store t1 s))"
  by (simp add: kept_for_store_def Let_def evictExpired_distinct evictOldest_distinct)

lemma kept_for_store_subset: 
  assumes "distinct (map fst (cache s))"
  shows "set (kept_for_store t1 s) \<subseteq> set (cache s)"
proof -
  have "set (cache (evictExpired t1 s)) \<subseteq> set (cache s)"
    using assms by (simp add: evictExpired_filter)
  moreover have "set (cache (evictOldest (evictExpired t1 s))) \<subseteq> set (cache (evictExpired t1 s))"
    by (simp add: evictOldest_cache)
  ultimately show ?thesis by (auto simp: kept_for_store_def Let_def)
qed

lemma kept_for_store_length:
  assumes d: "distinct (map fst (cache s))"
    and b: "int (length (cache s)) \<le> max 1 (maxCacheSize s)"
  shows "int (length (kept_for_store t1 s)) + 1 \<le> max 1 (maxCacheSize s)"
proof -
  let ?s1 = "evictExpired t1 s"
  have l1: "length (cache ?s1) \<le> length (cache s)"
    using d by (simp add: evictExpired_filter)
  show ?thesis
  proof (cases "int (length (cache ?s1)) \<ge> maxCacheSize s")
    case False
    then show ?thesis by (simp add: kept_for_store_def Let_def)
  next
    case True
    show ?thesis
    proof (cases "cache ?s1 = []")
      case True
      then show ?thesis using \<open>int (length (cache ?s1)) \<ge> maxCacheSize s\<close>
        by (simp add: kept_for_store_def Let_def evictOldest_def)
    next
      case False
      then have "1 \<le> length (cache ?s1)" by (cases "cache ?s1") auto
      moreover have "length (cache (evictOldest ?s1))
           = length (cache ?s1) - (if length (cache ?s1) div 10 < 1 then 1 else length (cache ?s1) div 10)"
        using evictExpired_distinct[OF d] False by (rule evictOldest_length)
      ultimately have "length (cache (evictOldest ?s1)) + 1 \<le> length (cache ?s1)"
        by (auto split: if_splits)
      then have "length (cache (evictOldest ?s1)) + 1 \<le> length (cache s)" using l1 by simp
      then show ?thesis using True b by (simp add: kept_for_store_def Let_def)
    qed
  qed
qed

lemma kept_for_store_soonest:
  assumes d: "distinct (map fst (cache s))"
    and x: "x \<in> set (cache s)" "x \<notin> set (kept_for_store t1 s)"
    and y: "y \<in> set (kept_for_store t1 s)"
  shows "expiry (snd x) \<le> expiry (snd y)"
proof -
  let ?s1 = "evictExpired t1 s"
  have c1: "cache ?s1 = filter (\<lambda>(k, e). t1 \<le> expiry e) (cache s)"
    using d by (rule evictExpired_filter)
  have sub: "set (cache (evictOldest ?s1)) \<subseteq> set (cache ?s1)"
    by (simp add: evictOldest_cache)
  have y1: "y \<in> set (cache ?s1)"
    using y sub by (auto simp: kept_for_store_def Let_def split: if_splits)
  then have ty: "t1 \<le> expiry (snd y)" unfolding c1 by (simp add: case_prod_unfold)
  show ?thesis
  proof (cases "x \<in> set (cache ?s1)")
    case False
    then have "expiry (snd x) < t1" using x(1) unfolding c1 by (simp add: case_prod_unfold)
    then show ?thesis using ty by simp
  next
    case True
    then have ev: "int (length (cache ?s1)) \<ge> maxCacheSize s"
      using x(2) by (auto simp: kept_for_store_def Let_def split: if_splits)
    then have "x \<notin> set (cache (evictOldest ?s1))" "y \<in> set (cache (evictOldest ?s1))"
      using x(2) y by (simp_all add: kept_for_store_def Let_def)
    then show ?thesis
      using evictOldest_soonest[OF evictExpired_distinct[OF d] True] by blast
  qed
qed

lemma length_update_le: "length (AList.update k v al) \<le> length al + 1"
  by (induction al) auto

lemma setCached_length:
  assumes "distinct (map fst (cache s))" "int (length (cache s)) \<le> max 1 (maxCacheSize s)"
  shows "int (length (cache (setCachedPrice t1 t2 key p s))) \<le> max 1 (maxCacheSize s)"
    and "int (length (cache (setCachedHistory t1 t2 key h s))) \<le> max 1 (maxCacheSize s)"
  using kept_for_store_length[OF assms, of t1]
    length_update_le[of key _ "kept_for_store t1 s"]
  unfolding setCachedPrice_cache setCachedHistory_cache
  by (smt (verit) of_nat_le_iff of_nat_add of_nat_1)+

lemma setCached_distinct:
  assumes "distinct (map fst (cache s))"
  shows "distinct (map fst (cache (setCachedPrice t1 t2 key p s)))"
    and "distinct (map fst (cache (setCachedHistory t1 t2 key h s)))"
  using kept_for_store_distinct[OF assms, of t1]
  by (simp_all add: setCachedPrice_cache setCachedHistory_cache distinct_update)

lemma reorder_distinct:
  "mset c = mset c' \<Longrightarrow> distinct (map fst c') \<Longrightarrow> distinct (map fst c)"
proof -
  assume a: "mset c = mset c'" and d: "distinct (map fst c')"
  have "mset (map fst c) = mset (map fst c')" using a by simp
  then show ?thesis using d mset_eq_imp_distinct_iff by blast
qed

lemma puts_to_invariant:
  assumes "puts_to s0 s" "distinct (map fst (cache s0))"
    "int (length (cache s0)) \<le> max 1 (maxCacheSize s0)"
  shows "distinct (map fst (cache s)) \<and> maxCacheSize s = maxCacheSize s0
         \<and> int (length (cache s)) \<le> max 1 (maxCacheSize s0)"
  using assms
proof (induction rule: puts_to.induct)
  case puts_none
  then show ?case by simp
next
  case (puts_price s c t1 t2 key p)
  let ?s = "s\<lparr>cache := c\<rparr>"
  have d: "distinct (map fst (cache ?s))"
    using puts_price by (simp add: reorder_distinct[of c "cache s"])
  have "length c = length (cache s)" using puts_price.hyps(2) by (metis size_mset)
  then have b: "int (length (cache ?s)) \<le> max 1 (maxCacheSize ?s)"
    using puts_price by simp
  show ?case
    using setCached_length(1)[OF d b, of t1 t2 key p] setCached_distinct(1)[OF d, of t1 t2 key p]
      puts_price by simp
next
  case (puts_history s c t1 t2 key h)
  let ?s = "s\<lparr>cache := c\<rparr>"
  have d: "distinct (map fst (cache ?s))"
    using puts_history by (simp add: reorder_distinct[of c "cache s"])
  have "length c = length (cache s)" using puts_history.hyps(2) by (metis size_mset)
  then have b: "int (length (cache ?s)) \<le> max 1 (maxCacheSize ?s)"
    using puts_history by simp
  show ?case
    using setCached_length(2)[OF d b, of t1 t2 key h] setCached_distinct(2)[OF d, of t1 t2 key h]
      puts_history by simp
qed

lemma evicted_soonest:
  assumes d: "distinct (map fst (cache s))"
    and keys: "fst ` set c' = {key} \<union> fst ` set (kept_for_store t1 s)"
    and x: "x \<in> set (cache s)" "fst x \<notin> fst ` set c'"
    and y: "y \<in> set (cache s)" "fst y \<in> fst ` set c'" "fst y \<noteq> key"
  shows "expiry (snd x) \<le> expiry (snd y)"
proof -
  have "x \<notin> set (kept_for_store t1 s)"
  proof
    assume "x \<in> set (kept_for_store t1 s)"
    then have "fst x \<in> fst ` set (kept_for_store t1 s)" by (rule imageI)
    then show False using x(2) keys by simp
  qed
  moreover have "y \<in> set (kept_for_store t1 s)"
  proof -
    have "fst y \<in> fst ` set (kept_for_store t1 s)" using y(2,3) keys by simp
    then obtain z where z: "z \<in> set (kept_for_store t1 s)" "fst z = fst y" by auto
    then have "z \<in> set (cache s)" using kept_for_store_subset[OF d] by blast
    then have "(fst y, snd z) \<in> set (cache s)" using z(2) by (metis prod.collapse)
    moreover have "(fst y, snd y) \<in> set (cache s)" using y(1) by simp
    ultimately have "snd z = snd y" using d eq_key_imp_eq_value by fastforce
    then have "z = y" using z(2) by (simp add: prod_eq_iff)
    then show ?thesis using z(1) by simp
  qed
  ultimately show ?thesis using kept_for_store_soonest[OF d x(1)] by blast
qed

text \<open>
  C3 (amended). Start from a cache with distinct keys that holds at most
  \<open>max 1 maxCacheSize\<close> entries. After any sequence of \<open>setCachedPrice\<close> and
  \<open>setCachedHistory\<close> calls the cache again holds at most \<open>max 1 maxCacheSize\<close>
  entries, which is \<open>maxCacheSize\<close> whenever \<open>maxCacheSize \<ge> 1\<close>. In one further
  insertion, every entry whose key disappears from the map expires no later than
  every old entry that stays (the overwritten key apart).
\<close>

theorem cache_capacity_bound:
  assumes "distinct (map fst (cache s0))"
    and "int (length (cache s0)) \<le> max 1 (maxCacheSize s0)"
    and "puts_to s0 s"
  shows "int (length (cache s)) \<le> max 1 (maxCacheSize s0) \<and>
    (\<forall>t1 t2 key p h s'.
       s' = setCachedPrice t1 t2 key p s \<or> s' = setCachedHistory t1 t2 key h s \<longrightarrow>
       (\<forall>x \<in> set (cache s). \<forall>y \<in> set (cache s).
          fst x \<notin> fst ` set (cache s') \<and> fst y \<in> fst ` set (cache s') \<and> fst y \<noteq> key
          \<longrightarrow> expiry (snd x) \<le> expiry (snd y)))"
proof -
  have inv: "distinct (map fst (cache s))" "int (length (cache s)) \<le> max 1 (maxCacheSize s0)"
    using puts_to_invariant[OF assms(3,1,2)] by simp_all
  have "expiry (snd x) \<le> expiry (snd y)"
    if "s' = setCachedPrice t1 t2 key p s \<or> s' = setCachedHistory t1 t2 key h s"
      "x \<in> set (cache s)" "y \<in> set (cache s)"
      "fst x \<notin> fst ` set (cache s')" "fst y \<in> fst ` set (cache s')" "fst y \<noteq> key"
    for t1 t2 key p h s' x y
  proof -
    have "fst ` set (cache s') = {key} \<union> fst ` set (kept_for_store t1 s)"
      using that(1) by (elim disjE) (simp_all only: setCachedPrice_cache setCachedHistory_cache dom_update)
    then show ?thesis
      by (rule evicted_soonest[OF inv(1) _ that(2) that(4) that(3) that(5) that(6)])
  qed
  then show ?thesis using inv(2) by blast
qed



lemma evictExpired_eq:
  "distinct (map fst (cache s)) \<Longrightarrow>
   evictExpired t1 s = s\<lparr>cache := filter (\<lambda>(k, e). t1 \<le> expiry e) (cache s)\<rparr>"
  using evictExpired_filter[of s t1] by (simp add: evictExpired_def)

lemma filter_removed:
  "filter (\<lambda>x. x \<notin> set (filter Q xs)) xs = filter (\<lambda>x. \<not> Q x) xs"
  by (rule filter_cong) auto

lemma mset_filter_split:
  "mset xs = mset (filter Q xs) + mset (filter (\<lambda>x. x \<notin> set (filter Q xs)) xs)"
  unfolding filter_removed by (induction xs) auto

lemma length_filter_split:
  "length (filter (\<lambda>x. x \<notin> set (filter Q xs)) xs) = length xs - length (filter Q xs)"
  unfolding filter_removed using sum_length_filter_compl[of Q xs] by simp

text \<open>
  C5 (amended). An insertion first sweeps: exactly the entries with
  \<open>expiry < now\<close> go, an entry with \<open>expiry = now\<close> stays. If the swept map still
  holds at least \<open>maxCacheSize\<close> entries, \<open>evictOldest\<close> removes
  \<open>max 1 (count div 10)\<close> of them (none when the swept map is empty), and every
  removed entry expires no later than every entry kept. The new entry is then stored
  in what is left. The two loops of \<open>evictOldest\<close> sort any slice by ascending expiry.
\<close>

theorem put_steps:
  assumes "distinct (map fst (cache s))"
  shows
    "let swept = filter (\<lambda>(k, e). t1 \<le> expiry e) (cache s);
         kept = (if maxCacheSize s \<le> int (length swept)
                 then cache (evictOldest (s\<lparr>cache := swept\<rparr>)) else swept);
         removed = filter (\<lambda>x. x \<notin> set kept) swept
     in cache (evictExpired t1 s) = swept
      \<and> cache (setCachedPrice t1 t2 key p s)
          = AList.update key \<lparr>price = p, history = [], expiry = t2 + cacheTTL s\<rparr> kept
      \<and> cache (setCachedHistory t1 t2 key h s)
          = AList.update key \<lparr>price = Finite 0, history = h, expiry = t2 + cacheTTL s\<rparr> kept
      \<and> mset swept = mset kept + mset removed
      \<and> (maxCacheSize s \<le> int (length swept) \<longrightarrow>
           length removed = (if swept = [] then 0 else max 1 (length swept div 10)))
      \<and> (\<forall>x \<in> set removed. \<forall>y \<in> set kept. expiry (snd x) \<le> expiry (snd y))
      \<and> sorted_wrt (\<lambda>x y. snd x \<le> snd y) (sort_outer 0 es)
      \<and> mset (sort_outer 0 es) = mset es"
proof -
  define swept where "swept = filter (\<lambda>(k, e). t1 \<le> expiry e) (cache s)"
  define kept where "kept = (if maxCacheSize s \<le> int (length swept)
                 then cache (evictOldest (s\<lparr>cache := swept\<rparr>)) else swept)"
  define removed where "removed = filter (\<lambda>x. x \<notin> set kept) swept"
  let ?s1 = "s\<lparr>cache := swept\<rparr>"
  have s1: "evictExpired t1 s = ?s1"
    unfolding swept_def using assms by (rule evictExpired_eq)
  have d1: "distinct (map fst (cache ?s1))"
    using evictExpired_distinct[OF assms, of t1] by (simp only: s1)
  have c1: "cache (evictExpired t1 s) = swept" by (simp add: s1)
  have k: "kept_for_store t1 s = kept"
    by (simp add: kept_for_store_def Let_def s1 kept_def)
  obtain Q where Q: "kept = filter Q swept"
  proof (cases "maxCacheSize s \<le> int (length swept)")
    case True
    then have "kept = filter (\<lambda>(k, _). k \<notin> fst ` set (oldest_entries swept)) swept"
      by (simp add: kept_def evictOldest_cache)
    then show ?thesis by (rule that)
  next
    case False
    then have "kept = filter (\<lambda>_. True) swept" by (simp add: kept_def)
    then show ?thesis by (rule that)
  qed
  have m: "mset swept = mset kept + mset removed"
    unfolding removed_def Q by (rule mset_filter_split)
  have l: "length removed = (if swept = [] then 0 else max 1 (length swept div 10))"
    if ev: "maxCacheSize s \<le> int (length swept)"
  proof (cases "swept = []")
    case True
    then show ?thesis by (simp add: removed_def)
  next
    case False
    then have "1 \<le> length swept" by (cases swept) auto
    moreover have "length kept = length swept - (if length swept div 10 < 1 then 1 else length swept div 10)"
      using evictOldest_length[OF d1] False ev by (simp add: kept_def)
    moreover have "length removed = length swept - length kept"
      unfolding removed_def Q by (rule length_filter_split)
    ultimately show ?thesis using False by (auto simp: max_def)
  qed
  have o: "expiry (snd x) \<le> expiry (snd y)" if "x \<in> set removed" "y \<in> set kept" for x y
  proof -
    have x: "x \<in> set swept" "x \<notin> set kept" using that(1) by (simp_all add: removed_def)
    then have "maxCacheSize s \<le> int (length swept)" by (auto simp: kept_def split: if_splits)
    then have kc: "kept = cache (evictOldest ?s1)" by (simp add: kept_def)
    have "x \<in> set (cache ?s1)" using x(1) by simp
    then show ?thesis using evictOldest_soonest[OF d1] x(2) that(2) unfolding kc by blast
  qed
  have "cache (evictExpired t1 s) = swept
      \<and> cache (setCachedPrice t1 t2 key p s)
          = AList.update key \<lparr>price = p, history = [], expiry = t2 + cacheTTL s\<rparr> kept
      \<and> cache (setCachedHistory t1 t2 key h s)
          = AList.update key \<lparr>price = Finite 0, history = h, expiry = t2 + cacheTTL s\<rparr> kept
      \<and> mset swept = mset kept + mset removed
      \<and> (maxCacheSize s \<le> int (length swept) \<longrightarrow>
           length removed = (if swept = [] then 0 else max 1 (length swept div 10)))
      \<and> (\<forall>x \<in> set removed. \<forall>y \<in> set kept. expiry (snd x) \<le> expiry (snd y))
      \<and> sorted_wrt (\<lambda>x y. snd x \<le> snd y) (sort_outer 0 es)
      \<and> mset (sort_outer 0 es) = mset es"
    using c1 m l o sort_outer_sorted[of es] sort_outer_mset[of 0 es]
    by (simp only: setCachedPrice_cache setCachedHistory_cache k) blast
  then show ?thesis
    unfolding Let_def swept_def[symmetric] kept_def[symmetric] removed_def[symmetric] .
qed

text \<open>
  C6 (amended). A read is present exactly when the key is in the map and
  \<open>now \<le> expiry\<close>: absent for a key never inserted, absent strictly after the
  expiry instant even though the entry is still stored, present at the expiry
  instant itself. An entry stored at \<open>t2\<close> is read back until \<open>t2 + cacheTTL\<close> included.
\<close>

theorem cache_read_present_iff:
  "(snd (getCachedPrice now key s)
      \<longleftrightarrow> (\<exists>entry. map_of (cache s) key = Some entry \<and> now \<le> expiry entry))
   \<and> (snd (getCachedHistory now key s)
      \<longleftrightarrow> (\<exists>entry. map_of (cache s) key = Some entry \<and> now \<le> expiry entry))
   \<and> getCachedPrice now key (setCachedPrice t1 t2 key p s)
       = (if now \<le> t2 + cacheTTL s then (p, True) else (Finite 0, False))
   \<and> getCachedHistory now key (setCachedHistory t1 t2 key h s)
       = (if now \<le> t2 + cacheTTL s then (h, True) else ([], False))"
proof (intro conjI)
  show "snd (getCachedPrice now key s)
      \<longleftrightarrow> (\<exists>entry. map_of (cache s) key = Some entry \<and> now \<le> expiry entry)"
    by (auto simp: getCachedPrice_def After_def split: option.splits)
  show "snd (getCachedHistory now key s)
      \<longleftrightarrow> (\<exists>entry. map_of (cache s) key = Some entry \<and> now \<le> expiry entry)"
    by (auto simp: getCachedHistory_def After_def split: option.splits)
  show "getCachedPrice now key (setCachedPrice t1 t2 key p s)
       = (if now \<le> t2 + cacheTTL s then (p, True) else (Finite 0, False))"
    by (simp add: getCachedPrice_def setCachedPrice_cache update_conv' After_def)
  show "getCachedHistory now key (setCachedHistory t1 t2 key h s)
       = (if now \<le> t2 + cacheTTL s then (h, True) else ([], False))"
    by (simp add: getCachedHistory_def setCachedHistory_cache update_conv' After_def)
qed

text \<open>Three insertions into an empty cache of capacity 2.\<close>

theorem cache_capacity_bound_witness:
  "puts_to \<lparr>cache = [], cacheTTL = 300, maxCacheSize = 2\<rparr>
     (setCachedPrice 3 3 ''C'' (Finite 3)
       (setCachedPrice 2 2 ''B'' (Finite 2)
         (setCachedPrice 1 1 ''A'' (Finite 1) \<lparr>cache = [], cacheTTL = 300, maxCacheSize = 2\<rparr>)))
   \<and> int (length (cache
     (setCachedPrice 3 3 ''C'' (Finite 3)
       (setCachedPrice 2 2 ''B'' (Finite 2)
         (setCachedPrice 1 1 ''A'' (Finite 1) \<lparr>cache = [], cacheTTL = 300, maxCacheSize = 2\<rparr>))))) \<le> 2"
proof -
  let ?s0 = "\<lparr>cache = [], cacheTTL = 300, maxCacheSize = 2\<rparr>"
  let ?s1 = "setCachedPrice 1 1 ''A'' (Finite 1) ?s0"
  let ?s2 = "setCachedPrice 2 2 ''B'' (Finite 2) ?s1"
  let ?s3 = "setCachedPrice 3 3 ''C'' (Finite 3) ?s2"
  have p1: "puts_to ?s0 ?s1"
    using puts_price[OF puts_none, of "cache ?s0" ?s0 1 1 "''A''" "Finite 1"] by simp
  have p2: "puts_to ?s0 ?s2"
    using puts_price[OF p1, of "cache ?s1" 2 2 "''B''" "Finite 2"] by simp
  have p3: "puts_to ?s0 ?s3"
    using puts_price[OF p2, of "cache ?s2" 3 3 "''C''" "Finite 3"] by simp
  have d: "distinct (map fst (cache ?s0))" by simp
  have b: "int (length (cache ?s0)) \<le> max 1 (maxCacheSize ?s0)" by simp
  show ?thesis using cache_capacity_bound[OF d b p3] p3 by simp
qed

text \<open>
  C3 as stated fails for \<open>maxCacheSize = 0\<close>, the value of the struct literals in
  \<open>alpha_vantage_test.go\<close>: the first insertion leaves one entry.
\<close>

theorem cache_capacity_counterexample:
  "\<not> int (length (cache (setCachedPrice 1 1 ''AAPL'' (Finite 150)
          \<lparr>cache = [], cacheTTL = 300, maxCacheSize = 0\<rparr>)))
       \<le> maxCacheSize \<lparr>cache = [], cacheTTL = 300, maxCacheSize = 0\<rparr>"
  by (simp add: setCachedPrice_def evictExpired_def evictOldest_def Let_def)

text \<open>
  C5 as stated fails twice: the sweep at \<open>now = 10\<close> keeps an entry with
  \<open>expiry = 10\<close>, and the capacity eviction of an empty map that is at capacity
  (\<open>maxCacheSize = 0\<close>) removes nothing.
\<close>

theorem put_steps_counterexample:
  "cache (evictExpired 10
      \<lparr>cache = [(''AAPL'', \<lparr>price = Finite 150, history = [], expiry = 10\<rparr>)],
       cacheTTL = 300, maxCacheSize = 1000\<rparr>)
     = [(''AAPL'', \<lparr>price = Finite 150, history = [], expiry = 10\<rparr>)]
   \<and> (0::int) \<ge> maxCacheSize \<lparr>cache = [], cacheTTL = 300, maxCacheSize = 0\<rparr>
   \<and> cache (evictOldest \<lparr>cache = [], cacheTTL = 300, maxCacheSize = 0\<rparr>) = []"
  by (simp add: evictExpired_def evictOldest_def After_def)

text \<open>One insertion: \<open>A\<close> is swept, \<open>C\<close> is the oldest of the rest and is evicted.\<close>

theorem put_steps_witness:
  "distinct (map fst (cache
      \<lparr>cache = [(''A'', \<lparr>price = Finite 1, history = [], expiry = 5\<rparr>),
                (''B'', \<lparr>price = Finite 2, history = [], expiry = 40\<rparr>),
                (''C'', \<lparr>price = Finite 3, history = [], expiry = 30\<rparr>)],
       cacheTTL = 300, maxCacheSize = 2\<rparr>))
   \<and> cache (setCachedPrice 20 21 ''D'' (Finite 4)
      \<lparr>cache = [(''A'', \<lparr>price = Finite 1, history = [], expiry = 5\<rparr>),
                (''B'', \<lparr>price = Finite 2, history = [], expiry = 40\<rparr>),
                (''C'', \<lparr>price = Finite 3, history = [], expiry = 30\<rparr>)],
       cacheTTL = 300, maxCacheSize = 2\<rparr>)
     = [(''B'', \<lparr>price = Finite 2, history = [], expiry = 40\<rparr>),
        (''D'', \<lparr>price = Finite 4, history = [], expiry = 321\<rparr>)]"
proof -
  let ?s = "\<lparr>cache = [(''A'', \<lparr>price = Finite 1, history = [], expiry = 5\<rparr>),
                (''B'', \<lparr>price = Finite 2, history = [], expiry = 40\<rparr>),
                (''C'', \<lparr>price = Finite 3, history = [], expiry = 30\<rparr>)],
       cacheTTL = 300, maxCacheSize = 2\<rparr>"
  have d: "distinct (map fst (cache ?s))" by simp
  have ev: "cache (evictOldest
      \<lparr>cache = [(''B'', \<lparr>price = Finite 2, history = [], expiry = 40\<rparr>),
                (''C'', \<lparr>price = Finite 3, history = [], expiry = 30\<rparr>)],
       cacheTTL = 300, maxCacheSize = 2\<rparr>)
      = [(''B'', \<lparr>price = Finite 2, history = [], expiry = 40\<rparr>)]"
    by (simp add: evictOldest_def Let_def After_def sort_outer.simps sort_inner.simps)
  show ?thesis
    using put_steps[OF d, of 20 21 "''D''" "Finite 4" "[]"] d
    by (simp add: Let_def ev)
qed

text \<open>Reads at the expiry instant, after it, and of a key never inserted.\<close>

theorem cache_read_present_iff_witness:
  "snd (getCachedPrice 10 ''AAPL''
      \<lparr>cache = [(''AAPL'', \<lparr>price = Finite 150, history = [], expiry = 10\<rparr>)],
       cacheTTL = 300, maxCacheSize = 1000\<rparr>)
   \<and> \<not> snd (getCachedPrice 11 ''AAPL''
      \<lparr>cache = [(''AAPL'', \<lparr>price = Finite 150, history = [], expiry = 10\<rparr>)],
       cacheTTL = 300, maxCacheSize = 1000\<rparr>)
   \<and> \<not> snd (getCachedHistory 5 ''history_AAPL__''
      \<lparr>cache = [(''AAPL'', \<lparr>price = Finite 150, history = [], expiry = 10\<rparr>)],
       cacheTTL = 300, maxCacheSize = 1000\<rparr>)"
  using cache_read_present_iff[of 10 "''AAPL''"
      "\<lparr>cache = [(''AAPL'', \<lparr>price = Finite 150, history = [], expiry = 10\<rparr>)],
       cacheTTL = 300, maxCacheSize = 1000\<rparr>"]
    cache_read_present_iff[of 11 "''AAPL''"
      "\<lparr>cache = [(''AAPL'', \<lparr>price = Finite 150, history = [], expiry = 10\<rparr>)],
       cacheTTL = 300, maxCacheSize = 1000\<rparr>"]
    cache_read_present_iff[of 5 "''history_AAPL__''"
      "\<lparr>cache = [(''AAPL'', \<lparr>price = Finite 150, history = [], expiry = 10\<rparr>)],
       cacheTTL = 300, maxCacheSize = 1000\<rparr>"]
  by simp

text \<open>C6 as stated fails at \<open>now = expiry\<close>: the entry is still read.\<close>

theorem cache_read_counterexample:
  "snd (getCachedPrice 10 ''AAPL''
      \<lparr>cache = [(''AAPL'', \<lparr>price = Finite 150, history = [], expiry = 10\<rparr>)],
       cacheTTL = 300, maxCacheSize = 1000\<rparr>)
   \<and> \<not> (10::int) < expiry \<lparr>price = Finite 150, history = [], expiry = 10\<rparr>"
  by (simp add: getCachedPrice_def After_def)

section \<open>Properties of the alert registry and evaluator\<close>

lemma f64_eq_not_lt: "f64_eq a b \<Longrightarrow> \<not> f64_lt a b \<and> \<not> f64_lt b a"
  by (cases a; cases b) auto

lemma Condition_consts_differ: "ConditionAbove \<noteq> ConditionBelow"
  by (simp add: ConditionAbove_def ConditionBelow_def)

lemma triggered_iff:
  "triggered c p th \<longleftrightarrow> (c = ConditionAbove \<and> f64_gt p th) \<or> (c = ConditionBelow \<and> f64_lt p th)"
  using Condition_consts_differ by (auto simp: triggered_def)

lemma triggered_not_at_threshold: "f64_eq p th \<Longrightarrow> \<not> triggered c p th"
  using f64_eq_not_lt[of p th] by (auto simp: triggered_iff f64_gt_def)

lemma checkAlert_inactive: "\<not> Active a \<Longrightarrow> checkAlert a w = (a, w, [])"
  by (simp add: checkAlert_def)

lemma checkAlert_not_triggered:
  assumes "Active a" "priceSvc_FetchPrice (Ticker a) w = (Inr p, w1)"
    "\<not> triggered (Condition a) p (Threshold a)"
  shows "checkAlert a w = (a, w1, [FetchPriceCalled])"
  using assms by (simp add: checkAlert_def)

lemma checkAlert_fetch_failed:
  assumes "Active a" "priceSvc_FetchPrice (Ticker a) w = (Inl err, w1)"
  shows "checkAlert a w = (a, w1, [FetchPriceCalled, FetchFailedLogged err])"
  using assms by (simp add: checkAlert_def)

lemma checkAlert_triggered:
  assumes "Active a" "priceSvc_FetchPrice (Ticker a) w = (Inr p, w1)"
    "triggered (Condition a) p (Threshold a)"
  shows "checkAlert a w =
     (a\<lparr>TriggeredAt := Some (fst (time_Now (snd (sendWebhook a p w1)))), Active := False\<rparr>,
      snd (time_Now (snd (sendWebhook a p w1))),
      [FetchPriceCalled, TriggerLogged p, WebhookInvoked p]
        @ (case fst (sendWebhook a p w1) of None \<Rightarrow> [] | Some e \<Rightarrow> [WebhookFailedLogged e]))"
  using assms by (simp add: checkAlert_def Let_def case_prod_unfold)

lemma checkAlert_cases:
  "fst (checkAlert a w) = a \<or>
   (Active a \<and> (\<exists>t. fst (checkAlert a w) = a\<lparr>TriggeredAt := Some t, Active := False\<rparr>))"
proof (cases "Active a")
  case False
  then show ?thesis by (simp add: checkAlert_inactive)
next
  case True
  obtain r w1 where f: "priceSvc_FetchPrice (Ticker a) w = (r, w1)" by (cases "priceSvc_FetchPrice (Ticker a) w")
  show ?thesis
  proof (cases r)
    case (Inl err)
    then show ?thesis using True f by (simp add: checkAlert_fetch_failed)
  next
    case (Inr p)
    show ?thesis
    proof (cases "triggered (Condition a) p (Threshold a)")
      case True
      then have "fst (checkAlert a w)
          = a\<lparr>TriggeredAt := Some (fst (time_Now (snd (sendWebhook a p w1)))), Active := False\<rparr>"
        using \<open>Active a\<close> f Inr by (simp add: checkAlert_triggered)
      then show ?thesis using \<open>Active a\<close> by blast
    next
      case False
      then show ?thesis using \<open>Active a\<close> f Inr by (simp add: checkAlert_not_triggered)
    qed
  qed
qed

lemma CheckAlerts_loop_keys:
  "CheckAlerts_loop al w = (al', w', tr) \<Longrightarrow> map fst al' = map fst al"
proof (induction al arbitrary: w al' w' tr)
  case Nil
  then show ?case by simp
next
  case (Cons x al)
  obtain k a where x: "x = (k, a)" by (cases x)
  obtain a1 w1 evs where c: "checkAlert a w = (a1, w1, evs)" by (cases "checkAlert a w")
  obtain rest' w2 evs' where l: "CheckAlerts_loop al w1 = (rest', w2, evs')"
    by (cases "CheckAlerts_loop al w1")
  have "al' = (k, a1) # rest'" using Cons.prems by (simp add: x c l)
  then show ?case using Cons.IH[OF l] by (simp add: x)
qed

lemma CheckAlerts_loop_trace_keys:
  "CheckAlerts_loop al w = (al', w', tr) \<Longrightarrow> fst ` set tr \<subseteq> fst ` set al"
proof (induction al arbitrary: w al' w' tr)
  case Nil
  then show ?case by simp
next
  case (Cons x al)
  obtain k a where x: "x = (k, a)" by (cases x)
  obtain a1 w1 evs where c: "checkAlert a w = (a1, w1, evs)" by (cases "checkAlert a w")
  obtain rest' w2 evs' where l: "CheckAlerts_loop al w1 = (rest', w2, evs')"
    by (cases "CheckAlerts_loop al w1")
  have "tr = map (Pair k) evs @ evs'" using Cons.prems by (simp add: x c l)
  then show ?case using Cons.IH[OF l] by (auto simp: x)
qed

lemma CheckAlerts_loop_visit:
  assumes "CheckAlerts_loop al w = (al', w', tr)" "distinct (map fst al)" "(k, a) \<in> set al"
  shows "\<exists>wk. map_of al' k = Some (fst (checkAlert a wk))
            \<and> map snd (filter (\<lambda>(k', _). k' = k) tr) = snd (snd (checkAlert a wk))"
  using assms
proof (induction al arbitrary: w al' w' tr)
  case Nil
  then show ?case by simp
next
  case (Cons x al)
  obtain k0 a0 where x: "x = (k0, a0)" by (cases x)
  obtain a1 w1 evs where c: "checkAlert a0 w = (a1, w1, evs)" by (cases "checkAlert a0 w")
  obtain rest' w2 evs' where l: "CheckAlerts_loop al w1 = (rest', w2, evs')"
    by (cases "CheckAlerts_loop al w1")
  have al': "al' = (k0, a1) # rest'" and tr: "tr = map (Pair k0) evs @ evs'"
    using Cons.prems(1) by (simp_all add: x c l)
  have d: "distinct (map fst al)" and k0: "k0 \<notin> fst ` set al"
    using Cons.prems(2) by (simp_all add: x)
  show ?case
  proof (cases "k = k0")
    case True
    have "(k, a) \<notin> set al"
    proof
      assume "(k, a) \<in> set al"
      then have "fst (k, a) \<in> fst ` set al" by (rule imageI)
      then show False using k0 True by simp
    qed
    then have a: "a = a0" using Cons.prems(3) True by (simp add: x)
    have "k0 \<notin> fst ` set evs'" using CheckAlerts_loop_trace_keys[OF l] k0 by blast
    then have "\<And>e. (k0, e) \<notin> set evs'"
      by (metis fst_conv imageI)
    then have "filter (\<lambda>(k', _). k' = k0) evs' = []"
      by (auto simp: filter_empty_conv)
    moreover have "filter (\<lambda>(k', _). k' = k0) (map (Pair k0) evs) = map (Pair k0) evs"
      by (induction evs) auto
    ultimately have "map snd (filter (\<lambda>(k', _). k' = k) tr) = evs"
      by (simp add: tr True comp_def)
    then show ?thesis using c by (intro exI[of _ w]) (simp add: al' True a)
  next
    case False
    then have "(k, a) \<in> set al" using Cons.prems(3) by (simp add: x)
    from Cons.IH[OF l d this] obtain wk where
      wk: "map_of rest' k = Some (fst (checkAlert a wk))"
        "map snd (filter (\<lambda>(k', _). k' = k) evs') = snd (snd (checkAlert a wk))"
      by blast
    have "filter (\<lambda>(k', _). k' = k) (map (Pair k0) evs) = []"
      using False by (induction evs) auto
    then show ?thesis using wk False by (intro exI[of _ wk]) (simp add: al' tr)
  qed
qed

lemma events_of_append [simp]: "events_of k (tr @ tr') = events_of k tr @ events_of k tr'"
  by (simp add: events_of_def)

lemma webhook_calls_append [simp]:
  "webhook_calls k (tr @ tr') = webhook_calls k tr + webhook_calls k tr'"
  by (simp add: webhook_calls_def)

lemma events_of_empty_iff: "events_of k tr = [] \<longleftrightarrow> (\<forall>e. (k, e) \<notin> set tr)"
  by (auto simp: events_of_def filter_empty_conv)


lemma checkAlert_unchanged_no_webhook:
  assumes "Active a" "Active (fst (checkAlert a w))"
  shows "fst (checkAlert a w) = a" "filter is_webhook (snd (snd (checkAlert a w))) = []"
proof -
  obtain r w1 where f: "priceSvc_FetchPrice (Ticker a) w = (r, w1)"
    by (cases "priceSvc_FetchPrice (Ticker a) w")
  have "fst (checkAlert a w) = a \<and> filter is_webhook (snd (snd (checkAlert a w))) = []"
  proof (cases r)
    case (Inl err)
    then show ?thesis using assms(1) f by (simp add: checkAlert_fetch_failed)
  next
    case (Inr p)
    show ?thesis
    proof (cases "triggered (Condition a) p (Threshold a)")
      case True
      then have "\<not> Active (fst (checkAlert a w))"
        using assms(1) f Inr by (simp add: checkAlert_triggered)
      then show ?thesis using assms(2) by simp
    next
      case False
      then show ?thesis using assms(1) f Inr by (simp add: checkAlert_not_triggered)
    qed
  qed
  then show "fst (checkAlert a w) = a" "filter is_webhook (snd (snd (checkAlert a w))) = []"
    by simp_all
qed

lemma checkAlert_changed_one_webhook:
  assumes "Active a" "\<not> Active (fst (checkAlert a w))"
  shows "\<exists>t. fst (checkAlert a w) = a\<lparr>TriggeredAt := Some t, Active := False\<rparr>"
    "length (filter is_webhook (snd (snd (checkAlert a w)))) = 1"
proof -
  obtain r w1 where f: "priceSvc_FetchPrice (Ticker a) w = (r, w1)"
    by (cases "priceSvc_FetchPrice (Ticker a) w")
  have "(\<exists>t. fst (checkAlert a w) = a\<lparr>TriggeredAt := Some t, Active := False\<rparr>)
        \<and> length (filter is_webhook (snd (snd (checkAlert a w)))) = 1"
  proof (cases r)
    case (Inl err)
    then show ?thesis using assms f by (simp add: checkAlert_fetch_failed)
  next
    case (Inr p)
    show ?thesis
    proof (cases "triggered (Condition a) p (Threshold a)")
      case True
      have c: "checkAlert a w =
         (a\<lparr>TriggeredAt := Some (fst (time_Now (snd (sendWebhook a p w1)))), Active := False\<rparr>,
          snd (time_Now (snd (sendWebhook a p w1))),
          [FetchPriceCalled, TriggerLogged p, WebhookInvoked p]
            @ (case fst (sendWebhook a p w1) of None \<Rightarrow> [] | Some e \<Rightarrow> [WebhookFailedLogged e]))"
        using assms(1) f Inr True by (simp add: checkAlert_triggered)
      show ?thesis unfolding c by (auto split: option.splits)
    next
      case False
      then show ?thesis using assms f Inr by (simp add: checkAlert_not_triggered)
    qed
  qed
  then show "\<exists>t. fst (checkAlert a w) = a\<lparr>TriggeredAt := Some t, Active := False\<rparr>"
    "length (filter is_webhook (snd (snd (checkAlert a w)))) = 1"
    by simp_all
qed

lemma perm_keys_distinct:
  assumes "mset c = mset al" "distinct (map fst al)"
  shows "distinct (map fst c)"
proof -
  have "mset (map fst c) = mset (map fst al)" using assms(1) by simp
  then show ?thesis using assms(2) mset_eq_imp_distinct_iff by blast
qed

lemma passes_invariant:
  assumes "passes s0 s tr" "distinct (map fst (alerts s0))" "(k, a) \<in> set (alerts s0)"
  shows "distinct (map fst (alerts s)) \<and>
     (\<exists>a'. (k, a') \<in> set (alerts s) \<and>
        ((a' = a \<and> webhook_calls k tr = 0 \<and> (\<not> Active a \<longrightarrow> events_of k tr = []))
         \<or> (Active a \<and> \<not> Active a' \<and> (\<exists>t. a' = a\<lparr>TriggeredAt := Some t, Active := False\<rparr>)
             \<and> webhook_calls k tr = 1)))"
  using assms
proof (induction rule: passes.induct)
  case passes_none
  then show ?case by (auto simp: webhook_calls_def events_of_def)
next
  case (passes_step s tr c w s' w' tr')
  from passes_step.IH[OF passes_step.prems] obtain a' where
    d: "distinct (map fst (alerts s))" and a': "(k, a') \<in> set (alerts s)" and
    st: "(a' = a \<and> webhook_calls k tr = 0 \<and> (\<not> Active a \<longrightarrow> events_of k tr = []))
         \<or> (Active a \<and> \<not> Active a' \<and> (\<exists>t. a' = a\<lparr>TriggeredAt := Some t, Active := False\<rparr>)
             \<and> webhook_calls k tr = 1)"
    by blast
  obtain al' where l: "CheckAlerts_loop c w = (al', w', tr')" and s': "alerts s' = al'"
    using passes_step.hyps(3) by (auto simp: CheckAlerts_def split: prod.splits)
  have dc: "distinct (map fst c)" using passes_step.hyps(2) d by (rule perm_keys_distinct)
  have ac: "(k, a') \<in> set c" using a' passes_step.hyps(2) by (metis set_mset_mset)
  from CheckAlerts_loop_visit[OF l dc ac] obtain wk where
    m: "map_of al' k = Some (fst (checkAlert a' wk))" and
    ev: "events_of k tr' = snd (snd (checkAlert a' wk))"
    by (auto simp: events_of_def)
  have d': "distinct (map fst (alerts s'))"
    using CheckAlerts_loop_keys[OF l] dc by (simp add: s')
  have mem: "(k, fst (checkAlert a' wk)) \<in> set (alerts s')"
    using m by (simp add: s' map_of_SomeD)
  have wc: "webhook_calls k tr' = length (filter is_webhook (snd (snd (checkAlert a' wk))))"
    by (simp add: webhook_calls_def ev)
  show ?case
  proof (cases "Active a'")
    case False
    then have c: "checkAlert a' wk = (a', wk, [])" by (rule checkAlert_inactive)
    have "events_of k tr' = []" "webhook_calls k tr' = 0" using ev wc by (simp_all add: c)
    moreover have "(k, a') \<in> set (alerts s')" using mem by (simp add: c)
    ultimately show ?thesis using d' st False by auto
  next
    case True
    then have st': "a' = a" "webhook_calls k tr = 0" "Active a" using st by auto
    show ?thesis
    proof (cases "Active (fst (checkAlert a' wk))")
      case True
      have "fst (checkAlert a' wk) = a'" "webhook_calls k tr' = 0"
        using checkAlert_unchanged_no_webhook[OF \<open>Active a'\<close> True] wc by simp_all
      then show ?thesis using d' mem st' by auto
    next
      case False
      have "\<exists>t. fst (checkAlert a' wk) = a'\<lparr>TriggeredAt := Some t, Active := False\<rparr>"
        "webhook_calls k tr' = 1"
        using checkAlert_changed_one_webhook[OF \<open>Active a'\<close> False] wc by simp_all
      then show ?thesis using d' mem st' False by auto
    qed
  qed
qed

text \<open>
  C2. Take any alert \<open>a\<close> stored under \<open>k\<close> and any number of evaluation passes.
  Afterwards the alert stored under \<open>k\<close> is \<open>a\<close> itself, or \<open>a\<close> was active and it is
  \<open>a\<close> with \<open>Active = False\<close> and \<open>TriggeredAt\<close> set: there is no other transition,
  and an active alert keeps \<open>TriggeredAt = None\<close> if it had it.
  If \<open>a\<close> was already inactive, it is unchanged and the passes produce no event for
  it: no price fetch, no webhook, no log line. Over all the passes the notifier is
  called at most once for \<open>k\<close>.
\<close>

theorem alert_lifecycle:
  assumes "distinct (map fst (alerts s0))" and "(k, a) \<in> set (alerts s0)" and "passes s0 s tr"
  shows "\<exists>a'. map_of (alerts s) k = Some a'
      \<and> (a' = a \<or> (Active a \<and> (\<exists>t. a' = a\<lparr>TriggeredAt := Some t, Active := False\<rparr>)))
      \<and> (\<not> Active a \<longrightarrow> a' = a \<and> (\<forall>e. (k, e) \<notin> set tr))
      \<and> ((Active a \<longrightarrow> TriggeredAt a = None) \<longrightarrow> (Active a' \<longrightarrow> TriggeredAt a' = None))
      \<and> webhook_calls k tr \<le> 1"
proof -
  from passes_invariant[OF assms(3,1,2)] obtain a' where
    d: "distinct (map fst (alerts s))" and a': "(k, a') \<in> set (alerts s)" and
    st: "(a' = a \<and> webhook_calls k tr = 0 \<and> (\<not> Active a \<longrightarrow> events_of k tr = []))
         \<or> (Active a \<and> \<not> Active a' \<and> (\<exists>t. a' = a\<lparr>TriggeredAt := Some t, Active := False\<rparr>)
             \<and> webhook_calls k tr = 1)"
    by blast
  have "map_of (alerts s) k = Some a'" using d a' by simp
  moreover have "a' = a \<or> (Active a \<and> (\<exists>t. a' = a\<lparr>TriggeredAt := Some t, Active := False\<rparr>))"
    using st by blast
  moreover have "\<not> Active a \<longrightarrow> a' = a \<and> (\<forall>e. (k, e) \<notin> set tr)"
    using st by (auto simp: events_of_empty_iff)
  moreover have "(Active a \<longrightarrow> TriggeredAt a = None) \<longrightarrow> (Active a' \<longrightarrow> TriggeredAt a' = None)"
    using st by auto
  moreover have "webhook_calls k tr \<le> 1" using st by auto
  ultimately show ?thesis by blast
qed

text \<open>
  Three passes over one \<open>above 100\<close> alert: the price is 90, then 101, then 150. The
  alert triggers in the second pass and the third pass does nothing.
\<close>

theorem alert_lifecycle_witness:
  "passes
     \<lparr>alerts = [(''AAPL-above-100.00'',
        \<lparr>ID = ''AAPL-above-100.00'', Ticker = ''AAPL'', Condition = ''above'',
         Threshold = Finite 100, WebhookURL = '''', Active = True, CreatedAt = 0,
         TriggeredAt = None\<rparr>)]\<rparr>
     \<lparr>alerts = [(''AAPL-above-100.00'',
        \<lparr>ID = ''AAPL-above-100.00'', Ticker = ''AAPL'', Condition = ''above'',
         Threshold = Finite 100, WebhookURL = '''', Active = False, CreatedAt = 0,
         TriggeredAt = Some 50\<rparr>)]\<rparr>
     [(''AAPL-above-100.00'', FetchPriceCalled),
      (''AAPL-above-100.00'', FetchPriceCalled),
      (''AAPL-above-100.00'', TriggerLogged (Finite 101)),
      (''AAPL-above-100.00'', WebhookInvoked (Finite 101))]
   \<and> webhook_calls ''AAPL-above-100.00''
     [(''AAPL-above-100.00'', FetchPriceCalled),
      (''AAPL-above-100.00'', FetchPriceCalled),
      (''AAPL-above-100.00'', TriggerLogged (Finite 101)),
      (''AAPL-above-100.00'', WebhookInvoked (Finite 101))] \<le> 1"
proof -
  let ?k = "''AAPL-above-100.00''"
  let ?a = "\<lparr>ID = ?k, Ticker = ''AAPL'', Condition = ''above'',
         Threshold = Finite 100, WebhookURL = '''', Active = True, CreatedAt = 0,
         TriggeredAt = None\<rparr>"
  let ?a' = "\<lparr>ID = ?k, Ticker = ''AAPL'', Condition = ''above'',
         Threshold = Finite 100, WebhookURL = '''', Active = False, CreatedAt = 0,
         TriggeredAt = Some 50\<rparr>"
  let ?s0 = "\<lparr>alerts = [(?k, ?a)]\<rparr>"
  let ?s1 = "\<lparr>alerts = [(?k, ?a')]\<rparr>"
  let ?w = "\<lambda>p. \<lparr>priceReplies = (\<lambda>n t. Inr (Finite p)), httpReplies = (\<lambda>n u b. Status 200),
       clockReadings = (\<lambda>n. 50 + int n), fetchCount = 0, postCount = 0, clockCount = 0\<rparr>"
  have c1: "CheckAlerts ?s0 (?w 90) = (?s0, (?w 90)\<lparr>fetchCount := 1\<rparr>, [(?k, FetchPriceCalled)])"
    by (simp add: CheckAlerts_def checkAlert_def priceSvc_FetchPrice_def triggered_def
        ConditionAbove_def f64_gt_def)
  have c2: "CheckAlerts ?s0 (?w 101) = (?s1, (?w 101)\<lparr>fetchCount := 1, clockCount := 1\<rparr>,
      [(?k, FetchPriceCalled), (?k, TriggerLogged (Finite 101)), (?k, WebhookInvoked (Finite 101))])"
    by (simp add: CheckAlerts_def checkAlert_def priceSvc_FetchPrice_def triggered_def
        ConditionAbove_def f64_gt_def sendWebhook_def time_Now_def)
  have c3: "CheckAlerts ?s1 (?w 150) = (?s1, ?w 150, [])"
    by (simp add: CheckAlerts_def checkAlert_def)
  have p1: "passes ?s0 ?s0 ([] @ [(?k, FetchPriceCalled)])"
    using passes_step[OF passes_none, of "alerts ?s0" ?s0] c1 by simp
  have p2: "passes ?s0 ?s1 (([] @ [(?k, FetchPriceCalled)])
      @ [(?k, FetchPriceCalled), (?k, TriggerLogged (Finite 101)), (?k, WebhookInvoked (Finite 101))])"
    using passes_step[OF p1, of "alerts ?s0"] c2 by simp
  have p3: "passes ?s0 ?s1 ((([] @ [(?k, FetchPriceCalled)])
      @ [(?k, FetchPriceCalled), (?k, TriggerLogged (Finite 101)), (?k, WebhookInvoked (Finite 101))]) @ [])"
    using passes_step[OF p2, of "alerts ?s1"] c3 by simp
  have d: "distinct (map fst (alerts ?s0))" by simp
  have m: "(?k, ?a) \<in> set (alerts ?s0)" by simp
  show ?thesis using alert_lifecycle[OF d m p3] p3 by simp
qed

text \<open>
  C4. The trigger predicate is
  \<open>(condition = above \<and> price > threshold) \<or> (condition = below \<and> price < threshold)\<close>;
  a price equal to the threshold never triggers, for either condition; and an active
  alert whose price was fetched changes state exactly when the predicate holds.
\<close>

theorem trigger_predicate_strict:
  "(triggered c p th \<longleftrightarrow> (c = ConditionAbove \<and> f64_gt p th) \<or> (c = ConditionBelow \<and> f64_lt p th))
   \<and> (f64_eq p th \<longrightarrow> \<not> triggered c p th)
   \<and> (Active a \<and> fst (priceSvc_FetchPrice (Ticker a) w) = Inr p \<longrightarrow>
        (fst (checkAlert a w) \<noteq> a \<longleftrightarrow> triggered (Condition a) p (Threshold a)))"
proof -
  have "fst (checkAlert a w) \<noteq> a \<longleftrightarrow> triggered (Condition a) p (Threshold a)"
    if act: "Active a" and fp: "fst (priceSvc_FetchPrice (Ticker a) w) = Inr p"
  proof -
    obtain w1 where f: "priceSvc_FetchPrice (Ticker a) w = (Inr p, w1)"
      using fp by (cases "priceSvc_FetchPrice (Ticker a) w") auto
    show ?thesis
    proof (cases "triggered (Condition a) p (Threshold a)")
      case True
      then have "\<not> Active (fst (checkAlert a w))"
        using act f by (simp add: checkAlert_triggered)
      then show ?thesis using act True by auto
    next
      case False
      then show ?thesis using act f by (simp add: checkAlert_not_triggered)
    qed
  qed
  then show ?thesis using triggered_iff[of c p th] triggered_not_at_threshold[of p th c] by blast
qed

text \<open>
  At the threshold neither condition triggers; one unit beyond it each does; a pass
  over an active \<open>below 100\<close> alert at price 100 leaves it as it is.
\<close>

theorem trigger_predicate_strict_witness:
  "\<not> triggered ConditionAbove (Finite 100) (Finite 100)
   \<and> \<not> triggered ConditionBelow (Finite 100) (Finite 100)
   \<and> triggered ConditionAbove (Finite 101) (Finite 100)
   \<and> triggered ConditionBelow (Finite 99) (Finite 100)
   \<and> fst (checkAlert
        \<lparr>ID = ''AAPL-below-100.00'', Ticker = ''AAPL'', Condition = ''below'',
         Threshold = Finite 100, WebhookURL = ''http://hook'', Active = True, CreatedAt = 0,
         TriggeredAt = None\<rparr>
        \<lparr>priceReplies = (\<lambda>n t. Inr (Finite 100)), httpReplies = (\<lambda>n u b. Status 200),
         clockReadings = (\<lambda>n. 50 + int n), fetchCount = 0, postCount = 0, clockCount = 0\<rparr>)
     = \<lparr>ID = ''AAPL-below-100.00'', Ticker = ''AAPL'', Condition = ''below'',
         Threshold = Finite 100, WebhookURL = ''http://hook'', Active = True, CreatedAt = 0,
         TriggeredAt = None\<rparr>"
proof -
  let ?a = "\<lparr>ID = ''AAPL-below-100.00'', Ticker = ''AAPL'', Condition = ''below'',
         Threshold = Finite 100, WebhookURL = ''http://hook'', Active = True, CreatedAt = 0,
         TriggeredAt = None\<rparr>"
  let ?w = "\<lparr>priceReplies = (\<lambda>n t. Inr (Finite 100)), httpReplies = (\<lambda>n u b. Status 200),
         clockReadings = (\<lambda>n. 50 + int n), fetchCount = 0, postCount = 0, clockCount = 0\<rparr>"
  have act: "Active ?a" by simp
  have fp: "fst (priceSvc_FetchPrice (Ticker ?a) ?w) = Inr (Finite 100)"
    by (simp add: priceSvc_FetchPrice_def)
  have eq: "f64_eq (Finite 100) (Threshold ?a)" by simp
  have thr: "\<not> triggered ConditionAbove (Finite 100) (Finite 100)
      \<and> \<not> triggered ConditionBelow (Finite 100) (Finite 100)
      \<and> triggered ConditionAbove (Finite 101) (Finite 100)
      \<and> triggered ConditionBelow (Finite 99) (Finite 100)"
    using trigger_predicate_strict[of ConditionAbove "Finite 100" "Finite 100"]
      trigger_predicate_strict[of ConditionBelow "Finite 100" "Finite 100"]
      trigger_predicate_strict[of ConditionAbove "Finite 101" "Finite 100"]
      trigger_predicate_strict[of ConditionBelow "Finite 99" "Finite 100"]
    by (simp add: f64_gt_def)
  have "\<not> triggered (Condition ?a) (Finite 100) (Threshold ?a)"
    and "fst (checkAlert ?a ?w) \<noteq> ?a \<longleftrightarrow> triggered (Condition ?a) (Finite 100) (Threshold ?a)"
    using trigger_predicate_strict[where c = "Condition ?a" and p = "Finite 100"
        and th = "Threshold ?a" and a = ?a and w = ?w] act fp eq
    by blast+
  then have "fst (checkAlert ?a ?w) = ?a" by blast
  then show ?thesis using thr by blast
qed

text \<open>
  C9. In a pass, the alert stored under \<open>k\<close> is visited in some world \<open>wk\<close>. If it is
  active, its price is fetched and the condition holds, then \<open>sendWebhook\<close> is called
  first and, whatever it returns, the alert is stored with \<open>Active = False\<close> and
  \<open>TriggeredAt\<close> set to the clock reading taken after \<open>sendWebhook\<close> returned; an
  error of \<open>sendWebhook\<close> only adds a log event.
\<close>

theorem trigger_transition_despite_webhook:
  assumes "distinct (map fst (alerts s))" and "(k, a) \<in> set (alerts s)"
    and "CheckAlerts s w = (s', w', tr)"
  shows "\<exists>wk. map_of (alerts s') k = Some (fst (checkAlert a wk))
     \<and> events_of k tr = snd (snd (checkAlert a wk))
     \<and> (\<forall>p w1. Active a \<and> priceSvc_FetchPrice (Ticker a) wk = (Inr p, w1)
            \<and> triggered (Condition a) p (Threshold a) \<longrightarrow>
          (\<exists>werr w2. sendWebhook a p w1 = (werr, w2)
             \<and> fst (checkAlert a wk) = a\<lparr>TriggeredAt := Some (fst (time_Now w2)), Active := False\<rparr>
             \<and> snd (snd (checkAlert a wk))
                 = [FetchPriceCalled, TriggerLogged p, WebhookInvoked p]
                   @ (case werr of None \<Rightarrow> [] | Some e \<Rightarrow> [WebhookFailedLogged e])))"
proof -
  obtain al' where l: "CheckAlerts_loop (alerts s) w = (al', w', tr)" and s': "alerts s' = al'"
    using assms(3) by (auto simp: CheckAlerts_def split: prod.splits)
  from CheckAlerts_loop_visit[OF l assms(1,2)] obtain wk where
    m: "map_of al' k = Some (fst (checkAlert a wk))" and
    ev: "events_of k tr = snd (snd (checkAlert a wk))"
    by (auto simp: events_of_def)
  have "\<exists>werr w2. sendWebhook a p w1 = (werr, w2)
             \<and> fst (checkAlert a wk) = a\<lparr>TriggeredAt := Some (fst (time_Now w2)), Active := False\<rparr>
             \<and> snd (snd (checkAlert a wk))
                 = [FetchPriceCalled, TriggerLogged p, WebhookInvoked p]
                   @ (case werr of None \<Rightarrow> [] | Some e \<Rightarrow> [WebhookFailedLogged e])"
    if "Active a" "priceSvc_FetchPrice (Ticker a) wk = (Inr p, w1)"
      "triggered (Condition a) p (Threshold a)" for p w1
    using checkAlert_triggered[OF that]
    by (intro exI[of _ "fst (sendWebhook a p w1)"] exI[of _ "snd (sendWebhook a p w1)"]) simp
  then show ?thesis using m ev unfolding s' by blast
qed

text \<open>The webhook endpoint answers 500: the alert is triggered all the same.\<close>

theorem trigger_transition_despite_webhook_witness:
  "map_of (alerts (fst (CheckAlerts
      \<lparr>alerts = [(''AAPL-above-100.00'',
        \<lparr>ID = ''AAPL-above-100.00'', Ticker = ''AAPL'', Condition = ''above'',
         Threshold = Finite 100, WebhookURL = ''http://hook'', Active = True, CreatedAt = 0,
         TriggeredAt = None\<rparr>)]\<rparr>
      \<lparr>priceReplies = (\<lambda>n t. Inr (Finite 101)), httpReplies = (\<lambda>n u b. Status 500),
       clockReadings = (\<lambda>n. 50 + int n), fetchCount = 0, postCount = 0, clockCount = 0\<rparr>)))
     ''AAPL-above-100.00''
   = Some \<lparr>ID = ''AAPL-above-100.00'', Ticker = ''AAPL'', Condition = ''above'',
         Threshold = Finite 100, WebhookURL = ''http://hook'', Active = False, CreatedAt = 0,
         TriggeredAt = Some 51\<rparr>
   \<and> events_of ''AAPL-above-100.00'' (snd (snd (CheckAlerts
      \<lparr>alerts = [(''AAPL-above-100.00'',
        \<lparr>ID = ''AAPL-above-100.00'', Ticker = ''AAPL'', Condition = ''above'',
         Threshold = Finite 100, WebhookURL = ''http://hook'', Active = True, CreatedAt = 0,
         TriggeredAt = None\<rparr>)]\<rparr>
      \<lparr>priceReplies = (\<lambda>n t. Inr (Finite 101)), httpReplies = (\<lambda>n u b. Status 500),
       clockReadings = (\<lambda>n. 50 + int n), fetchCount = 0, postCount = 0, clockCount = 0\<rparr>)))
   = [FetchPriceCalled, TriggerLogged (Finite 101), WebhookInvoked (Finite 101),
      WebhookFailedLogged (WebhookStatus 500)]"
proof -
  let ?k = "''AAPL-above-100.00''"
  let ?a = "\<lparr>ID = ?k, Ticker = ''AAPL'', Condition = ''above'',
         Threshold = Finite 100, WebhookURL = ''http://hook'', Active = True, CreatedAt = 0,
         TriggeredAt = None\<rparr>"
  let ?s = "\<lparr>alerts = [(?k, ?a)]\<rparr>"
  let ?w = "\<lparr>priceReplies = (\<lambda>n t. Inr (Finite 101)), httpReplies = (\<lambda>n u b. Status 500),
       clockReadings = (\<lambda>n. 50 + int n), fetchCount = 0, postCount = 0, clockCount = 0\<rparr>"
  have d: "distinct (map fst (alerts ?s))" by simp
  have m: "(?k, ?a) \<in> set (alerts ?s)" by simp
  have c: "CheckAlerts ?s ?w
      = (fst (CheckAlerts ?s ?w), fst (snd (CheckAlerts ?s ?w)), snd (snd (CheckAlerts ?s ?w)))"
    by simp
  show ?thesis
    using trigger_transition_despite_webhook[OF d m c]
    by (simp add: CheckAlerts_def checkAlert_def priceSvc_FetchPrice_def triggered_def
        ConditionAbove_def f64_gt_def sendWebhook_def time_Now_def httpClient_Do_def events_of_def)
qed

lemma count_key_distinct:
  "distinct (map fst al) \<Longrightarrow> k \<in> fst ` set al \<Longrightarrow> length (filter (\<lambda>(k', _). k' = k) al) = 1"
proof (induction al)
  case Nil
  then show ?case by simp
next
  case (Cons x al)
  obtain k0 v0 where x: "x = (k0, v0)" by (cases x)
  show ?case
  proof (cases "k0 = k")
    case True
    then have "k \<notin> fst ` set al" using Cons.prems(1) by (simp add: x)
    then have "\<And>v. (k, v) \<notin> set al" by (metis fst_conv imageI)
    then have "filter (\<lambda>(k', _). k' = k) al = []" by (auto simp: filter_empty_conv)
    then show ?thesis using True by (simp add: x)
  next
    case False
    then have "k \<in> fst ` set al" using Cons.prems(2) by (simp add: x)
    then show ?thesis using Cons.IH Cons.prems(1) False by (simp add: x)
  qed
qed

lemma CreateAlert_unfold:
  "CreateAlert now ticker c th url s =
     (\<lparr>ID = ticker @ ''-'' @ c @ ''-'' @ fmt_f2 th, Ticker = ticker, Condition = c,
       Threshold = th, WebhookURL = url, Active = True, CreatedAt = now, TriggeredAt = None\<rparr>,
      s\<lparr>alerts := AList.update (ticker @ ''-'' @ c @ ''-'' @ fmt_f2 th)
          \<lparr>ID = ticker @ ''-'' @ c @ ''-'' @ fmt_f2 th, Ticker = ticker, Condition = c,
           Threshold = th, WebhookURL = url, Active = True, CreatedAt = now, TriggeredAt = None\<rparr>
          (alerts s)\<rparr>)"
  by (simp add: CreateAlert_def Let_def)

text \<open>
  C8. The id is \<open>ticker-condition-threshold\<close> with the threshold printed by \<open>%.2f\<close>, a
  function of the triple alone. Creating the same triple twice gives the same id;
  the registry then holds the second alert under that id (the first with the second
  call's webhook URL and creation time), has the same keys as after the first call,
  and has exactly one entry for the id.
\<close>

theorem create_same_triple_overwrites:
  assumes "distinct (map fst (alerts s))"
  shows "let (a1, s1) = CreateAlert t1 ticker c th url1 s;
             (a2, s2) = CreateAlert t2 ticker c th url2 s1
         in ID a1 = ticker @ ''-'' @ c @ ''-'' @ fmt_f2 th
          \<and> ID a2 = ID a1
          \<and> GetAlert (ID a1) s1 = Inr a1
          \<and> GetAlert (ID a1) s2 = Inr a2
          \<and> a2 = a1\<lparr>WebhookURL := url2, CreatedAt := t2\<rparr>
          \<and> map fst (alerts s2) = map fst (alerts s1)
          \<and> length (filter (\<lambda>(k, _). k = ID a1) (alerts s2)) = 1"
proof -
  let ?id = "ticker @ ''-'' @ c @ ''-'' @ fmt_f2 th"
  let ?a1 = "\<lparr>ID = ?id, Ticker = ticker, Condition = c, Threshold = th, WebhookURL = url1,
              Active = True, CreatedAt = t1, TriggeredAt = None\<rparr>"
  let ?a2 = "\<lparr>ID = ?id, Ticker = ticker, Condition = c, Threshold = th, WebhookURL = url2,
              Active = True, CreatedAt = t2, TriggeredAt = None\<rparr>"
  let ?al2 = "AList.update ?id ?a2 (AList.update ?id ?a1 (alerts s))"
  have "distinct (map fst ?al2)" using assms by (simp add: distinct_update)
  moreover have "?id \<in> fst ` set ?al2" by (simp add: dom_update)
  ultimately have "length (filter (\<lambda>(k, _). k = ?id) ?al2) = 1" by (rule count_key_distinct)
  then show ?thesis
    by (simp add: CreateAlert_unfold GetAlert_def update_conv' update_keys dom_update)
qed

text \<open>Two creations of \<open>AAPL above 150\<close> with different webhook URLs.\<close>

theorem create_same_triple_overwrites_witness:
  "(let (a1, s1) = CreateAlert 1 ''AAPL'' ConditionAbove (Finite 150) ''http://first'' \<lparr>alerts = []\<rparr>;
        (a2, s2) = CreateAlert 2 ''AAPL'' ConditionAbove (Finite 150) ''http://second'' s1
    in ID a1 = ''AAPL-above-150.00'' \<and> ID a2 = ''AAPL-above-150.00''
     \<and> alerts s2 = [(''AAPL-above-150.00'',
          \<lparr>ID = ''AAPL-above-150.00'', Ticker = ''AAPL'', Condition = ''above'',
           Threshold = Finite 150, WebhookURL = ''http://second'', Active = True, CreatedAt = 2,
           TriggeredAt = None\<rparr>)])"
proof -
  have d: "distinct (map fst (alerts \<lparr>alerts = []\<rparr>))" by simp
  show ?thesis
    using create_same_triple_overwrites[OF d, of 1 "''AAPL''" ConditionAbove "Finite 150"
        "''http://first''" 2 "''http://second''"]
    by (simp add: CreateAlert_unfold ConditionAbove_def fmt_f2_def round_half_even_def Let_def
        nat_digits.simps digit_char_def)
qed

text \<open>
  C10. The thresholds are the \<open>float64\<close> values nearest to 100.001 and 100.004. They
  differ, both print as \<open>100.00\<close>, so the two alerts get the same id and the second
  creation replaces the first alert in the registry without adding a key.
\<close>

theorem alert_id_collision:
  "let th1 = Finite (3518472393255289 / 35184372088832);
       th2 = Finite (7037155892743111 / 70368744177664);
       (a1, s1) = CreateAlert t1 ticker c th1 url1 s;
       (a2, s2) = CreateAlert t2 ticker c th2 url2 s1
   in \<not> f64_eq th1 th2
    \<and> fmt_f2 th1 = ''100.00'' \<and> fmt_f2 th2 = ''100.00''
    \<and> ID a1 = ID a2
    \<and> GetAlert (ID a1) s1 = Inr a1
    \<and> GetAlert (ID a1) s2 = Inr a2
    \<and> Threshold a2 = th2 \<and> a2 \<noteq> a1
    \<and> map fst (alerts s2) = map fst (alerts s1)"
proof -
  have f1: "fmt_f2 (Finite (3518472393255289 / 35184372088832)) = ''100.00''"
    by (simp add: fmt_f2_def round_half_even_def Let_def nat_digits.simps digit_char_def)
  have f2: "fmt_f2 (Finite (7037155892743111 / 70368744177664)) = ''100.00''"
    by (simp add: fmt_f2_def round_half_even_def Let_def nat_digits.simps digit_char_def)
  have ne: "(3518472393255289 / 35184372088832 :: real) \<noteq> 7037155892743111 / 70368744177664"
    by simp
  show ?thesis
    using ne by (simp add: Let_def CreateAlert_unfold GetAlert_def update_conv' update_keys dom_update f1 f2)
qed

section \<open>Properties of the batch fetch\<close>

lemma collect_keys:
  "fst ` set (fst (fold (\<lambda>x (results, errors).
             case f x of
               Inl err \<Rightarrow> (results, errors @ [err])
             | Inr p \<Rightarrow> (AList.update (g x) p results, errors)) xs (r, e)))
     = fst ` set r \<union> {g x |x. x \<in> set xs \<and> \<not> isl (f x)}"
proof (induction xs arbitrary: r e)
  case Nil
  then show ?case by simp
next
  case (Cons x xs)
  show ?case
  proof (cases "f x")
    case (Inl err)
    then show ?thesis using Cons.IH[of r "e @ [err]"] by auto
  next
    case (Inr p)
    then show ?thesis using Cons.IH[of "AList.update (g x) p r" e] by (auto simp: dom_update)
  qed
qed

lemma collect_sound:
  "map_of (fst (fold (\<lambda>x (results, errors).
             case f x of
               Inl err \<Rightarrow> (results, errors @ [err])
             | Inr p \<Rightarrow> (AList.update (g x) p results, errors)) xs (r, e))) k = Some p
   \<Longrightarrow> map_of r k = Some p \<or> (\<exists>x \<in> set xs. g x = k \<and> f x = Inr p)"
proof (induction xs arbitrary: r e)
  case Nil
  then show ?case by simp
next
  case (Cons x xs)
  show ?case
  proof (cases "f x")
    case (Inl err)
    then show ?thesis using Cons.IH[of r "e @ [err]"] Cons.prems by auto
  next
    case (Inr q)
    then have "map_of (AList.update (g x) q r) k = Some p \<or> (\<exists>x \<in> set xs. g x = k \<and> f x = Inr p)"
      using Cons.IH[of "AList.update (g x) q r" e] Cons.prems by simp
    then show ?thesis using Inr by (auto simp: update_conv' split: if_splits)
  qed
qed

lemma collect_errors:
  "snd (fold (\<lambda>x (results, errors).
             case f x of
               Inl err \<Rightarrow> (results, errors @ [err])
             | Inr p \<Rightarrow> (AList.update (g x) p results, errors)) xs (r, e))
     = e @ map projl (filter isl (map f xs))"
proof (induction xs arbitrary: r e)
  case Nil
  then show ?case by simp
next
  case (Cons x xs)
  show ?case
  proof (cases "f x")
    case (Inl err)
    then show ?thesis using Cons.IH[of r "e @ [err]"] by simp
  next
    case (Inr p)
    then show ?thesis using Cons.IH[of "AList.update (g x) p r" e] by simp
  qed
qed

lemma collect_distinct:
  "distinct (map fst r) \<Longrightarrow>
   distinct (map fst (fst (fold (\<lambda>x (results, errors).
             case f x of
               Inl err \<Rightarrow> (results, errors @ [err])
             | Inr p \<Rightarrow> (AList.update (g x) p results, errors)) xs (r, e))))"
proof (induction xs arbitrary: r e)
  case Nil
  then show ?case by simp
next
  case (Cons x xs)
  show ?case
  proof (cases "f x")
    case (Inl err)
    then show ?thesis using Cons.IH[of r "e @ [err]"] Cons.prems by simp
  next
    case (Inr p)
    then show ?thesis
      using Cons.IH[of "AList.update (g x) p r" e] Cons.prems by (simp add: distinct_update)
  qed
qed

lemma collect_total_failure:
  "(length (fst (fold (\<lambda>x (results, errors).
             case f x of
               Inl err \<Rightarrow> (results, errors @ [err])
             | Inr p \<Rightarrow> (AList.update (g x) p results, errors)) xs ([], []))) = 0
    \<and> length (snd (fold (\<lambda>x (results, errors).
             case f x of
               Inl err \<Rightarrow> (results, errors @ [err])
             | Inr p \<Rightarrow> (AList.update (g x) p results, errors)) xs ([], []))) > 0)
   \<longleftrightarrow> xs \<noteq> [] \<and> (\<forall>x \<in> set xs. isl (f x))"
proof -
  let ?res = "fold (\<lambda>x (results, errors).
             case f x of
               Inl err \<Rightarrow> (results, errors @ [err])
             | Inr p \<Rightarrow> (AList.update (g x) p results, errors)) xs ([], [])"
  have "length (fst ?res) = 0 \<longleftrightarrow> fst ` set (fst ?res) = {}" by simp
  also have "\<dots> \<longleftrightarrow> (\<forall>x \<in> set xs. isl (f x))"
    unfolding collect_keys by auto
  finally have a: "length (fst ?res) = 0 \<longleftrightarrow> (\<forall>x \<in> set xs. isl (f x))" .
  have b: "snd ?res = map projl (filter isl (map f xs))"
    using collect_errors[where f=f and g=g and xs=xs and r="[]" and e="[]"] by simp
  show ?thesis
  proof (cases "\<forall>x \<in> set xs. isl (f x)")
    case True
    then have "filter isl (map f xs) = map f xs" by (simp add: filter_id_conv)
    then show ?thesis using a b True by simp
  next
    case False
    then have "length (fst ?res) \<noteq> 0" using a by blast
    then show ?thesis using False by blast
  qed
qed

lemma MockPriceFetcher_isl: "isl (MockPriceFetcher t) \<Longrightarrow> MockPriceFetcher t = Inl (PriceNotFound t)"
  by (auto simp: MockPriceFetcher_def split: option.splits)

lemma MockBatch_fold:
  "MockBatchPriceFetcher_loop tickers =
     fold (\<lambda>x (results, errors).
             case MockPriceFetcher x of
               Inl err \<Rightarrow> (results, errors @ [err])
             | Inr p \<Rightarrow> (AList.update ((\<lambda>t. t) x) p results, errors)) tickers ([], [])"
  by (simp add: MockBatchPriceFetcher_loop_def)

lemma FetchPrices_fold:
  "FetchPrices_collect outcome order tickers =
     fold (\<lambda>x (results, errors).
             case outcome x of
               Inl err \<Rightarrow> (results, errors @ [err])
             | Inr p \<Rightarrow> (AList.update ((\<lambda>i. tickers ! i) x) p results, errors)) order ([], [])"
  by (simp add: FetchPrices_collect_def)

lemma MockBatch_failure_iff:
  "(\<exists>e. MockBatchPriceFetcher tickers = Inl e)
     \<longleftrightarrow> tickers \<noteq> [] \<and> (\<forall>t \<in> set tickers. isl (MockPriceFetcher t))"
proof -
  have "(\<exists>e. MockBatchPriceFetcher tickers = Inl e)
     \<longleftrightarrow> length (fst (MockBatchPriceFetcher_loop tickers)) = 0
         \<and> length (snd (MockBatchPriceFetcher_loop tickers)) > 0"
    by (auto simp: MockBatchPriceFetcher_def case_prod_unfold Let_def)
  then show ?thesis
    unfolding MockBatch_fold by (simp only: collect_total_failure)
qed

lemma MockBatch_failure_value:
  assumes "MockBatchPriceFetcher tickers = Inl e"
  shows "e = FailedAnyTicker (map PriceNotFound tickers)"
proof -
  have all: "\<forall>t \<in> set tickers. isl (MockPriceFetcher t)"
    using assms MockBatch_failure_iff[of tickers] by blast
  then have "filter isl (map MockPriceFetcher tickers) = map MockPriceFetcher tickers"
    by (simp add: filter_id_conv)
  moreover have "map projl (map MockPriceFetcher tickers) = map PriceNotFound tickers"
    using all by (simp add: MockPriceFetcher_isl)
  moreover have "snd (MockBatchPriceFetcher_loop tickers)
      = map projl (filter isl (map MockPriceFetcher tickers))"
    unfolding MockBatch_fold by (simp add: collect_errors)
  moreover have "e = FailedAnyTicker (snd (MockBatchPriceFetcher_loop tickers))"
    using assms by (auto simp: MockBatchPriceFetcher_def case_prod_unfold Let_def split: if_splits)
  ultimately show ?thesis by simp
qed

lemma MockBatch_success:
  assumes "MockBatchPriceFetcher tickers = Inr results"
  shows "distinct (map fst results)"
    and "map_of results t = Some p \<longleftrightarrow> t \<in> set tickers \<and> MockPriceFetcher t = Inr p"
proof -
  have r: "results = fst (MockBatchPriceFetcher_loop tickers)"
    using assms by (auto simp: MockBatchPriceFetcher_def case_prod_unfold Let_def split: if_splits)
  show d: "distinct (map fst results)"
    unfolding r MockBatch_fold by (rule collect_distinct) simp
  have keys: "fst ` set results = {t. t \<in> set tickers \<and> \<not> isl (MockPriceFetcher t)}"
    unfolding r MockBatch_fold collect_keys by auto
  show "map_of results t = Some p \<longleftrightarrow> t \<in> set tickers \<and> MockPriceFetcher t = Inr p"
  proof
    assume "map_of results t = Some p"
    then have "map_of [] t = Some p \<or> (\<exists>x \<in> set tickers. x = t \<and> MockPriceFetcher x = Inr p)"
      unfolding r MockBatch_fold by (rule collect_sound)
    then show "t \<in> set tickers \<and> MockPriceFetcher t = Inr p" by simp
  next
    assume a: "t \<in> set tickers \<and> MockPriceFetcher t = Inr p"
    then have "t \<in> fst ` set results" unfolding keys by simp
    then obtain q where q: "map_of results t = Some q"
      by (metis domD dom_map_of_conv_image_fst)
    then have "map_of [] t = Some q \<or> (\<exists>x \<in> set tickers. x = t \<and> MockPriceFetcher x = Inr q)"
      unfolding r MockBatch_fold by (rule collect_sound)
    then have "q = p" using a by simp
    then show "map_of results t = Some p" using q by simp
  qed
qed

lemma order_set:
  assumes "mset order = mset [0..<length tickers]"
  shows "set order = {0..<length tickers}" "order = [] \<longleftrightarrow> tickers = []"
proof -
  show "set order = {0..<length tickers}"
    using arg_cong[OF assms, of set_mset] by simp
  then show "order = [] \<longleftrightarrow> tickers = []" by (metis atLeastLessThan_empty_iff2 length_greater_0_conv set_empty)
qed

lemma FetchPrices_failure_iff:
  assumes "mset order = mset [0..<length tickers]"
  shows "(\<exists>e. FetchPrices outcome order tickers = Inl e)
     \<longleftrightarrow> tickers \<noteq> [] \<and> (\<forall>i < length tickers. isl (outcome i))"
proof -
  have "(\<exists>e. FetchPrices outcome order tickers = Inl e)
     \<longleftrightarrow> length (fst (FetchPrices_collect outcome order tickers)) = 0
         \<and> length (snd (FetchPrices_collect outcome order tickers)) > 0"
    by (auto simp: FetchPrices_def case_prod_unfold Let_def)
  also have "\<dots> \<longleftrightarrow> order \<noteq> [] \<and> (\<forall>i \<in> set order. isl (outcome i))"
    unfolding FetchPrices_fold by (simp only: collect_total_failure)
  also have "\<dots> \<longleftrightarrow> tickers \<noteq> [] \<and> (\<forall>i < length tickers. isl (outcome i))"
    using order_set[OF assms] by auto
  finally show ?thesis .
qed

lemma FetchPrices_failure_value:
  assumes "mset order = mset [0..<length tickers]" "FetchPrices outcome order tickers = Inl e"
  shows "e = FailedAnyTicker (map (\<lambda>i. projl (outcome i)) order)"
proof -
  have "\<forall>i < length tickers. isl (outcome i)"
    using assms FetchPrices_failure_iff[of order tickers outcome] by blast
  then have "\<forall>i \<in> set order. isl (outcome i)" using order_set(1)[OF assms(1)] by simp
  then have "filter isl (map outcome order) = map outcome order"
    by (simp add: filter_id_conv)
  moreover have "snd (FetchPrices_collect outcome order tickers)
      = map projl (filter isl (map outcome order))"
    unfolding FetchPrices_fold by (simp add: collect_errors)
  moreover have "e = FailedAnyTicker (snd (FetchPrices_collect outcome order tickers))"
    using assms(2) by (auto simp: FetchPrices_def case_prod_unfold Let_def split: if_splits)
  ultimately show ?thesis by (simp add: comp_def)
qed

lemma FetchPrices_success:
  assumes "mset order = mset [0..<length tickers]" "FetchPrices outcome order tickers = Inr results"
  shows "distinct (map fst results)"
    and "t \<in> fst ` set results \<longleftrightarrow> (\<exists>i < length tickers. tickers ! i = t \<and> \<not> isl (outcome i))"
    and "map_of results t = Some p \<Longrightarrow> \<exists>i < length tickers. tickers ! i = t \<and> outcome i = Inr p"
proof -
  have r: "results = fst (FetchPrices_collect outcome order tickers)"
    using assms(2) by (auto simp: FetchPrices_def case_prod_unfold Let_def split: if_splits)
  show "distinct (map fst results)"
    unfolding r FetchPrices_fold by (rule collect_distinct) simp
  show "t \<in> fst ` set results \<longleftrightarrow> (\<exists>i < length tickers. tickers ! i = t \<and> \<not> isl (outcome i))"
    unfolding r FetchPrices_fold collect_keys using order_set(1)[OF assms(1)] by auto
  assume "map_of results t = Some p"
  then have "map_of [] t = Some p \<or> (\<exists>x \<in> set order. tickers ! x = t \<and> outcome x = Inr p)"
    unfolding r FetchPrices_fold by (rule collect_sound)
  then obtain x where x: "x \<in> set order" "tickers ! x = t" "outcome x = Inr p" by auto
  then have "x < length tickers" using order_set(1)[OF assms(1)] by simp
  then show "\<exists>i < length tickers. tickers ! i = t \<and> outcome i = Inr p"
    using x(2,3) by blast
qed

text \<open>
  C1 (amended). Both batch fetches return an overall error exactly when the list is
  not empty and every symbol failed, and the error then carries the recorded errors.
  In every other case they return the map alone: it holds exactly the symbols that
  resolved, each with a price that was fetched for it, whatever happened to the
  other symbols; the recorded errors are not part of the result.
\<close>

theorem batch_fetch_result:
  assumes "mset order = mset [0..<length tickers]"
  shows "((\<exists>e. MockBatchPriceFetcher tickers = Inl e)
            \<longleftrightarrow> tickers \<noteq> [] \<and> (\<forall>t \<in> set tickers. isl (MockPriceFetcher t)))
    \<and> (\<forall>e. MockBatchPriceFetcher tickers = Inl e \<longrightarrow> e = FailedAnyTicker (map PriceNotFound tickers))
    \<and> (\<forall>results. MockBatchPriceFetcher tickers = Inr results \<longrightarrow>
          distinct (map fst results)
          \<and> (\<forall>t p. map_of results t = Some p \<longleftrightarrow> t \<in> set tickers \<and> MockPriceFetcher t = Inr p))
    \<and> ((\<exists>e. FetchPrices outcome order tickers = Inl e)
            \<longleftrightarrow> tickers \<noteq> [] \<and> (\<forall>i < length tickers. isl (outcome i)))
    \<and> (\<forall>e. FetchPrices outcome order tickers = Inl e \<longrightarrow>
          e = FailedAnyTicker (map (\<lambda>i. projl (outcome i)) order))
    \<and> (\<forall>results. FetchPrices outcome order tickers = Inr results \<longrightarrow>
          distinct (map fst results)
          \<and> (\<forall>t. t \<in> fst ` set results
                 \<longleftrightarrow> (\<exists>i < length tickers. tickers ! i = t \<and> \<not> isl (outcome i)))
          \<and> (\<forall>t p. map_of results t = Some p
                 \<longrightarrow> (\<exists>i < length tickers. tickers ! i = t \<and> outcome i = Inr p)))"
proof (intro conjI allI impI)
  show "(\<exists>e. MockBatchPriceFetcher tickers = Inl e)
            \<longleftrightarrow> tickers \<noteq> [] \<and> (\<forall>t \<in> set tickers. isl (MockPriceFetcher t))"
    by (rule MockBatch_failure_iff)
  show "e = FailedAnyTicker (map PriceNotFound tickers)"
    if "MockBatchPriceFetcher tickers = Inl e" for e
    using that by (rule MockBatch_failure_value)
  show "distinct (map fst results)" if "MockBatchPriceFetcher tickers = Inr results" for results
    using that by (rule MockBatch_success(1))
  show "map_of results t = Some p \<longleftrightarrow> t \<in> set tickers \<and> MockPriceFetcher t = Inr p"
    if "MockBatchPriceFetcher tickers = Inr results" for results t p
    using that by (rule MockBatch_success(2))
  show "(\<exists>e. FetchPrices outcome order tickers = Inl e)
            \<longleftrightarrow> tickers \<noteq> [] \<and> (\<forall>i < length tickers. isl (outcome i))"
    using assms by (rule FetchPrices_failure_iff)
  show "e = FailedAnyTicker (map (\<lambda>i. projl (outcome i)) order)"
    if "FetchPrices outcome order tickers = Inl e" for e
    using assms that by (rule FetchPrices_failure_value)
  show "distinct (map fst results)"
    if "FetchPrices outcome order tickers = Inr results" for results
    using assms that by (rule FetchPrices_success(1))
  show "t \<in> fst ` set results
                 \<longleftrightarrow> (\<exists>i < length tickers. tickers ! i = t \<and> \<not> isl (outcome i))"
    if "FetchPrices outcome order tickers = Inr results" for results t
    using assms that by (rule FetchPrices_success(2))
  show "\<exists>i < length tickers. tickers ! i = t \<and> outcome i = Inr p"
    if "FetchPrices outcome order tickers = Inr results" "map_of results t = Some p" for results t p
    using assms that by (rule FetchPrices_success(3))
qed

text \<open>Partial success and total failure, and a concurrent run that records out of order.\<close>

theorem batch_fetch_result_witness:
  "MockBatchPriceFetcher [''AAPL'', ''INVALID''] = Inr [(''AAPL'', Finite 150)]
   \<and> MockBatchPriceFetcher [''INVALID1'', ''INVALID2'']
       = Inl (FailedAnyTicker [PriceNotFound ''INVALID1'', PriceNotFound ''INVALID2''])
   \<and> FetchPrices (\<lambda>i. if i = 0 then Inr (Finite 150) else Inl (Upstream ''status 500''))
        [1, 0] [''AAPL'', ''INVALID''] = Inr [(''AAPL'', Finite 150)]"
proof -
  have o: "mset [1, 0] = mset [0..<length [''AAPL'', ''INVALID'']]"
    by (simp add: upt_rec)
  have o2: "mset [1, 0] = mset [0..<length [''INVALID1'', ''INVALID2'']]"
    by (simp add: upt_rec)
  have e1: "MockBatchPriceFetcher [''AAPL'', ''INVALID''] = Inr [(''AAPL'', Finite 150)]"
    by (simp add: MockBatchPriceFetcher_def MockBatchPriceFetcher_loop_def MockPriceFetcher_def
        priceMocks_def)
  have e2: "MockBatchPriceFetcher [''INVALID1'', ''INVALID2'']
       = Inl (FailedAnyTicker [PriceNotFound ''INVALID1'', PriceNotFound ''INVALID2''])"
    by (simp add: MockBatchPriceFetcher_def MockBatchPriceFetcher_loop_def MockPriceFetcher_def
        priceMocks_def)
  have e3: "FetchPrices (\<lambda>i. if i = 0 then Inr (Finite 150) else Inl (Upstream ''status 500''))
        [1, 0] [''AAPL'', ''INVALID''] = Inr [(''AAPL'', Finite 150)]"
    by (simp add: FetchPrices_def FetchPrices_collect_def)
  show ?thesis
    using batch_fetch_result[OF o,
        of "\<lambda>i. if i = 0 then Inr (Finite 150) else Inl (Upstream ''status 500'')"]
      batch_fetch_result[OF o2, of "\<lambda>i. Inl (Upstream ''status 500'')"]
    by (simp only: e1 e2 e3 simp_thms)
qed

text \<open>
  C1 as stated fails on the errors: with one symbol failing the loop has recorded
  one error, yet the call returns the same value as the call without that symbol,
  the map alone.
\<close>

theorem batch_fetch_counterexample:
  "MockBatchPriceFetcher [''AAPL'', ''INVALID''] = Inr [(''AAPL'', Finite 150)]
   \<and> snd (MockBatchPriceFetcher_loop [''AAPL'', ''INVALID'']) = [PriceNotFound ''INVALID'']
   \<and> MockBatchPriceFetcher [''AAPL''] = Inr [(''AAPL'', Finite 150)]
   \<and> snd (MockBatchPriceFetcher_loop [''AAPL'']) = []"
  by (simp add: MockBatchPriceFetcher_def MockBatchPriceFetcher_loop_def MockPriceFetcher_def
      priceMocks_def)

section \<open>Properties of the price history\<close>

lemma length_reverse_loop [simp]: "length (reverse_loop i j xs) = length xs"
  by (induction i j xs rule: reverse_loop.induct) (subst reverse_loop.simps, simp)

lemma reverse_loop_nth:
  "0 \<le> i \<Longrightarrow> j < int (length xs) \<Longrightarrow> k < length xs \<Longrightarrow>
   reverse_loop i j xs ! k
     = (if i \<le> int k \<and> int k \<le> j then xs ! nat (i + j - int k) else xs ! k)"
proof (induction i j xs arbitrary: k rule: reverse_loop.induct)
  case (1 i j xs)
  show ?case
  proof (cases "i < j")
    case False
    then have "reverse_loop i j xs = xs" by (subst reverse_loop.simps) simp
    moreover have "i \<le> int k \<and> int k \<le> j \<Longrightarrow> nat (i + j - int k) = k" using False by linarith
    ultimately show ?thesis by auto
  next
    case True
    let ?xs = "xs[nat i := xs ! nat j, nat j := xs ! nat i]"
    have r: "reverse_loop i j xs = reverse_loop (i + 1) (j - 1) ?xs"
      using True by (subst reverse_loop.simps) simp
    have ih: "reverse_loop (i + 1) (j - 1) ?xs ! k
       = (if i + 1 \<le> int k \<and> int k \<le> j - 1 then ?xs ! nat (i + 1 + (j - 1) - int k) else ?xs ! k)"
      using "1.IH"[OF True, of k] "1.prems" by simp
    have ni: "nat i < length xs" and nj: "nat j < length xs" and nij: "nat i \<noteq> nat j"
      using True "1.prems" by linarith+
    show ?thesis
    proof (cases "i + 1 \<le> int k \<and> int k \<le> j - 1")
      case True
      then have "nat (i + j - int k) \<noteq> nat i" "nat (i + j - int k) \<noteq> nat j"
        using "1.prems" by linarith+
      then show ?thesis using True r ih by (simp add: algebra_simps)
    next
      case False
      consider "int k = i" | "int k = j" | "int k < i \<or> j < int k"
        using False by linarith
      then show ?thesis
      proof cases
        case 1
        then have "k = nat i" "nat (i + j - int k) = nat j" by linarith+
        then show ?thesis using r ih False ni nj nij True 1 by simp
      next
        case 2
        then have "k = nat j" "nat (i + j - int k) = nat i" by linarith+
        then show ?thesis using r ih False ni nj nij True 2 by simp
      next
        case 3
        then have "k \<noteq> nat i" "k \<noteq> nat j" using "1.prems" True by linarith+
        then show ?thesis using r ih False 3 by auto
      qed
    qed
  qed
qed

lemma reverse_loop_rev: "reverse_loop 0 (int (length xs) - 1) xs = rev xs"
proof (rule nth_equalityI)
  show "length (reverse_loop 0 (int (length xs) - 1) xs) = length (rev xs)" by simp
  fix k assume "k < length (reverse_loop 0 (int (length xs) - 1) xs)"
  then have k: "k < length xs" by simp
  then have "reverse_loop 0 (int (length xs) - 1) xs ! k = xs ! nat (0 + (int (length xs) - 1) - int k)"
    by (subst reverse_loop_nth) auto
  also have "nat (0 + (int (length xs) - 1) - int k) = length xs - Suc k" using k by linarith
  finally show "reverse_loop 0 (int (length xs) - 1) xs ! k = rev xs ! k"
    using k by (simp add: rev_nth)
qed

text \<open>On a cache miss the result is the enumeration of the time series, filtered and reversed.\<close>

lemma FetchPriceHistory_fresh:
  assumes "snd (getCachedHistory t0 (''history_'' @ t @ ''_'' @ fromDate @ ''_'' @ toDate) s) = False"
  shows "fst (FetchPriceHistory scan (Inr timeSeries) t0 t1 t2 t fromDate toDate s)
           = Inr (rev (parse_points scan fromDate toDate timeSeries))"
proof -
  obtain c b where g: "getCachedHistory t0 (''history_'' @ t @ ''_'' @ fromDate @ ''_'' @ toDate) s = (c, b)"
    by (cases "getCachedHistory t0 (''history_'' @ t @ ''_'' @ fromDate @ ''_'' @ toDate) s")
  then have "b = False" using assms by simp
  then show ?thesis
    using g by (simp add: FetchPriceHistory_def Let_def reverse_loop_rev)
qed

text \<open>
  C7. The time series holds two days and \<open>range\<close> yields the earlier one first:
  \<open>FetchPriceHistory\<close> returns the later day first, which is not ascending.
\<close>

theorem history_not_sorted:
  "fst (FetchPriceHistory (\<lambda>str. None)
      (Inr [(''2024-01-01'', JObject [(''4. close'', JNumber (Finite 150))]),
            (''2024-01-02'', JObject [(''4. close'', JNumber (Finite 151))])])
      0 0 0 ''AAPL'' '''' '''' \<lparr>cache = [], cacheTTL = 300, maxCacheSize = 1000\<rparr>)
   = Inr [\<lparr>Date = ''2024-01-02'', Open = Finite 0, High = Finite 0, Low = Finite 0,
            Close = Finite 151\<rparr>,
          \<lparr>Date = ''2024-01-01'', Open = Finite 0, High = Finite 0, Low = Finite 0,
            Close = Finite 150\<rparr>]
   \<and> \<not> sorted [''2024-01-02'', ''2024-01-01'']"
  by (simp add: FetchPriceHistory_def getCachedHistory_def Let_def parsePrice_def
      reverse_loop.simps)

end
